theory Spec2Isabelle
  imports Main "HOL-Library.Word"
begin

section \<open>The generic doubly-linked list of list.h\<close>

text \<open>
  The header list.h generates, for an element type \<open>T\<close>, the node type
  \<^verbatim>\<open>struct list_T\<close>, the metadata type \<^verbatim>\<open>struct list_sentinal_T\<close>, the constructor
  \<^verbatim>\<open>new_list_T\<close> and a family of statement-expression macros. The element type is the
  type variable \<open>'a\<close> here.

  Pointers and \<^verbatim>\<open>size_t\<close> are 64-bit words; the null pointer is \<open>0\<close>. The nodes live in
  a heap, a partial map from addresses to node contents: an address outside its domain
  is not allocated. Dereferencing a null or unallocated pointer, reading an array past
  its end and freeing an unallocated block are undefined behaviour in C; the model
  returns a \<open>fault\<close> there (the left injection of a sum) and no state.
\<close>

subsection \<open>Data model\<close>

type_synonym addr = "64 word"
type_synonym size_t = "64 word"

datatype fault = NullDeref | InvalidDeref | OutOfBounds | InvalidFree

text \<open>\<^verbatim>\<open>struct list_T { struct list_T *next; struct list_T *prev; T entry; }\<close>\<close>

record 'a list_node =
  "next" :: addr
  prev :: addr
  entry :: 'a

text \<open>
  \<^verbatim>\<open>typedef void ( *list_destructor_T)(T)\<close>: a caller-supplied callback, possibly null. It
  receives an element by value and acts on whatever the caller owns outside the list
  (the test program frees a string). That outside is the type variable \<open>'e\<close>; a
  destructor is a function from the element to a transformer of it, and \<open>None\<close> is the
  null function pointer.
\<close>

type_synonym ('a, 'e) list_destructor = "('a \<Rightarrow> 'e \<Rightarrow> 'e) option"

text \<open>\<^verbatim>\<open>struct list_sentinal_T { head; tail; size_t length; destructor; }\<close>\<close>

record ('a, 'e) list_sentinal =
  head :: addr
  tail :: addr
  length' :: size_t
  destructor :: "('a, 'e) list_destructor"

type_synonym 'a heap = "addr \<rightharpoonup> 'a list_node"

text \<open>
  The state an operation works on: the sentinal its \<^verbatim>\<open>list\<close> argument points to, the
  heap of nodes, and the caller's world, which only destructors and traversal callbacks
  touch.
\<close>

record ('a, 'e) state =
  sentinal :: "('a, 'e) list_sentinal"
  heap :: "'a heap"
  world :: 'e

subsection \<open>Faults and memory primitives\<close>

definition fbind :: "fault + 'a \<Rightarrow> ('a \<Rightarrow> fault + 'b) \<Rightarrow> fault + 'b" where
  "fbind m f = (case m of Inl e \<Rightarrow> Inl e | Inr v \<Rightarrow> f v)"

text \<open>Reading through a pointer: \<^verbatim>\<open>p->field\<close>.\<close>

definition load :: "'a heap \<Rightarrow> addr \<Rightarrow> fault + 'a list_node" where
  "load h p =
     (if p = 0 then Inl NullDeref
      else case h p of None \<Rightarrow> Inl InvalidDeref | Some n \<Rightarrow> Inr n)"

text \<open>Writing through a pointer: \<^verbatim>\<open>p->field = v\<close>, the field update given as \<open>f\<close>.\<close>

definition store :: "'a heap \<Rightarrow> addr \<Rightarrow> ('a list_node \<Rightarrow> 'a list_node) \<Rightarrow> fault + 'a heap" where
  "store h p f = fbind (load h p) (\<lambda>n. Inr (h(p \<mapsto> f n)))"

text \<open>\<^verbatim>\<open>free(p)\<close>: nothing on a null pointer, undefined on an unallocated block.\<close>

definition free :: "addr \<Rightarrow> 'a heap \<Rightarrow> fault + 'a heap" where
  "free p h =
     (if p = 0 then Inr h
      else case h p of None \<Rightarrow> Inl InvalidFree | Some n \<Rightarrow> Inr (h(p := None)))"

text \<open>
  \<^verbatim>\<open>malloc\<close> belongs to the C library, not to this repository. Its results are a
  parameter of the model: an operation that allocates once takes the pointer
  \<^verbatim>\<open>malloc\<close> returned; the constructor takes the list of the pointers its successive
  calls return, and a call beyond that list fails, returning null.
\<close>

definition malloc :: "addr list \<Rightarrow> nat \<Rightarrow> addr" where
  "malloc ptrs k = (if k < length ptrs then ptrs ! k else 0)"

text \<open>Reading \<^verbatim>\<open>initializer[i]\<close> from the caller's array.\<close>

definition index :: "'a list \<Rightarrow> size_t \<Rightarrow> fault + 'a" where
  "index arr i = (if unat i < length arr then Inr (arr ! unat i) else Inl OutOfBounds)"

subsection \<open>Field names as macro arguments\<close>

text \<open>
  The internal macros take field names as arguments: \<^verbatim>\<open>top\<close>, \<^verbatim>\<open>bottom\<close> and
  \<^verbatim>\<open>sentinal\<close> range over \<^verbatim>\<open>head\<close> and \<^verbatim>\<open>tail\<close>; \<^verbatim>\<open>direction\<close> and \<^verbatim>\<open>reverse\<close> over
  \<^verbatim>\<open>next\<close> and \<^verbatim>\<open>prev\<close>.
\<close>

datatype sentinal_field = Head | Tail
datatype link_field = Next | Prev

fun sget :: "sentinal_field \<Rightarrow> ('a, 'e) list_sentinal \<Rightarrow> addr" where
  "sget Head l = head l"
| "sget Tail l = tail l"

fun sput :: "sentinal_field \<Rightarrow> addr \<Rightarrow> ('a, 'e) list_sentinal \<Rightarrow> ('a, 'e) list_sentinal" where
  "sput Head p l = l\<lparr>head := p\<rparr>"
| "sput Tail p l = l\<lparr>tail := p\<rparr>"

fun lget :: "link_field \<Rightarrow> 'a list_node \<Rightarrow> addr" where
  "lget Next n = next n"
| "lget Prev n = prev n"

fun lput :: "link_field \<Rightarrow> addr \<Rightarrow> 'a list_node \<Rightarrow> 'a list_node" where
  "lput Next p n = n\<lparr>next := p\<rparr>"
| "lput Prev p n = n\<lparr>prev := p\<rparr>"

subsection \<open>Insertion\<close>

text \<open>
  \<^verbatim>\<open>_LIST_ADD(list, elem, top, bottom, direction, reverse)\<close>. The first argument is
  the pointer \<^verbatim>\<open>malloc\<close> returned. The macro argument \<^verbatim>\<open>elem\<close> is an expression,
  evaluated where the macro stores it (after the two link fields of the new node are
  written), so it is a computation that may fault. The value of the
  statement-expression is that of \<^verbatim>\<open>++(list)->length\<close>, the incremented length.
\<close>

definition gen_LIST_ADD ::
  "addr \<Rightarrow> (fault + 'a) \<Rightarrow> sentinal_field \<Rightarrow> sentinal_field \<Rightarrow> link_field \<Rightarrow> link_field
     \<Rightarrow> ('a, 'e) state \<Rightarrow> fault + (size_t \<times> ('a, 'e) state)" where
  "gen_LIST_ADD new_entry elem top_f bottom_f direction reverse s =
     (if new_entry = 0 then Inl NullDeref
      else
        fbind elem (\<lambda>v.
        let h1 = (heap s)(new_entry \<mapsto> \<lparr>next = 0, prev = 0, entry = v\<rparr>);
            l1 = (if sget bottom_f (sentinal s) = 0 then sput bottom_f new_entry (sentinal s)
                  else sentinal s)
        in
        fbind
          (if sget top_f l1 = 0 then Inr (sput top_f new_entry l1, h1)
           else
             fbind (store h1 (sget top_f l1) (lput direction new_entry)) (\<lambda>h2.
             fbind (store h2 new_entry (lput reverse (sget top_f l1))) (\<lambda>h3.
             Inr (sput top_f new_entry l1, h3))))
          (\<lambda>(l2, h4).
             let l3 = l2\<lparr>length' := length' l2 + 1\<rparr>
             in Inr (length' l3, s\<lparr>sentinal := l3, heap := h4\<rparr>))))"

definition LIST_APPEND ::
  "addr \<Rightarrow> (fault + 'a) \<Rightarrow> ('a, 'e) state \<Rightarrow> fault + (size_t \<times> ('a, 'e) state)" where
  "LIST_APPEND new_entry elem s = gen_LIST_ADD new_entry elem Tail Head Next Prev s"

definition LIST_PREPEND ::
  "addr \<Rightarrow> (fault + 'a) \<Rightarrow> ('a, 'e) state \<Rightarrow> fault + (size_t \<times> ('a, 'e) state)" where
  "LIST_PREPEND new_entry elem s = gen_LIST_ADD new_entry elem Head Tail Prev Next s"

subsection \<open>Pointer expressions as macro arguments\<close>

text \<open>
  \<^verbatim>\<open>LIST_REMOVE\<close> and \<^verbatim>\<open>LIST_DEL\<close> are macros: their argument \<^verbatim>\<open>elem\<close> is an
  expression, substituted at each use and evaluated again by every statement that
  mentions it, in the state that the statements before it have left. An argument is
  therefore a function from the state to a pointer (or a fault, when evaluating it
  dereferences a bad pointer). Three such expressions: a pointer variable that the macro
  does not assign, such as a local variable of the caller or the loop variable of a
  traversal, and the two boundary fields \<^verbatim>\<open>(list)->head\<close> and \<^verbatim>\<open>(list)->tail\<close>.
\<close>

type_synonym ('a, 'e) expr = "('a, 'e) state \<Rightarrow> fault + addr"

definition ptr :: "addr \<Rightarrow> ('a, 'e) expr" where
  "ptr p s = Inr p"

definition list_head :: "('a, 'e) expr" where
  "list_head s = Inr (head (sentinal s))"

definition list_tail :: "('a, 'e) expr" where
  "list_tail s = Inr (tail (sentinal s))"

subsection \<open>Removal\<close>

text \<open>
  \<^verbatim>\<open>LIST_REMOVE(list, elem)\<close>, one line of the definition per statement of the macro:
  each statement evaluates \<^verbatim>\<open>elem\<close> in the state its predecessors left (within one
  statement the state does not change, so one evaluation stands for all of them). The
  value of the statement-expression is that of \<^verbatim>\<open>(list)->length--\<close>, a
  post-decrement: the length before the decrement. There is no check that \<^verbatim>\<open>elem\<close>
  belongs to the list, and the decrement wraps at zero.
\<close>

definition LIST_REMOVE ::
  "('a, 'e) expr \<Rightarrow> ('a, 'e) state \<Rightarrow> fault + (size_t \<times> ('a, 'e) state)" where
  "LIST_REMOVE elem s =
     fbind (elem s) (\<lambda>p0.
     fbind (load (heap s) p0) (\<lambda>e0.
     fbind (if prev e0 \<noteq> 0
            then fbind (store (heap s) (prev e0) (lput Next (next e0)))
                   (\<lambda>h. Inr (s\<lparr>heap := h\<rparr>))
            else Inr s) (\<lambda>s1.
     fbind (elem s1) (\<lambda>p1.
     fbind (load (heap s1) p1) (\<lambda>e1.
     fbind (if next e1 \<noteq> 0
            then fbind (store (heap s1) (next e1) (lput Prev (prev e1)))
                   (\<lambda>h. Inr (s1\<lparr>heap := h\<rparr>))
            else Inr s1) (\<lambda>s2.
     fbind (elem s2) (\<lambda>p2.
     fbind (if p2 = head (sentinal s2)
            then fbind (load (heap s2) (head (sentinal s2)))
                   (\<lambda>n. Inr (s2\<lparr>sentinal := (sentinal s2)\<lparr>head := next n\<rparr>\<rparr>))
            else Inr s2) (\<lambda>s3.
     fbind (elem s3) (\<lambda>p3.
     fbind (if p3 = tail (sentinal s3)
            then fbind (load (heap s3) (tail (sentinal s3)))
                   (\<lambda>n. Inr (s3\<lparr>sentinal := (sentinal s3)\<lparr>tail := prev n\<rparr>\<rparr>))
            else Inr s3) (\<lambda>s4.
     Inr (length' (sentinal s4),
          s4\<lparr>sentinal := (sentinal s4)\<lparr>length' := length' (sentinal s4) - 1\<rparr>\<rparr>)))))))))))"

text \<open>
  \<^verbatim>\<open>LIST_DEL(list, elem)\<close>: remove, call the destructor if there is one on
  \<^verbatim>\<open>(elem)->entry\<close>, then \<^verbatim>\<open>free(elem)\<close>; \<^verbatim>\<open>elem\<close> is evaluated again for the
  destructor call and for \<^verbatim>\<open>free\<close>, after the removal. The statement-expression ends
  in \<^verbatim>\<open>free(elem)\<close> and has no value.
\<close>

definition LIST_DEL :: "('a, 'e) expr \<Rightarrow> ('a, 'e) state \<Rightarrow> fault + ('a, 'e) state" where
  "LIST_DEL elem s =
     fbind (LIST_REMOVE elem s) (\<lambda>(r, s1).
     fbind (case destructor (sentinal s1) of
              None \<Rightarrow> Inr s1
            | Some d \<Rightarrow>
                fbind (elem s1) (\<lambda>p.
                fbind (load (heap s1) p) (\<lambda>n. Inr (s1\<lparr>world := d (entry n) (world s1)\<rparr>))))
       (\<lambda>s2.
     fbind (elem s2) (\<lambda>p.
     fbind (free p (heap s2)) (\<lambda>h. Inr (s2\<lparr>heap := h\<rparr>)))))"

subsection \<open>Pop\<close>

text \<open>
  \<^verbatim>\<open>_LIST_POP(list, sentinal)\<close>: the boundary pointer is copied into a local variable,
  which is what \<^verbatim>\<open>LIST_REMOVE\<close> is given; then the entry is read and the node freed;
  the value is the entry. The pointer is not tested before \<^verbatim>\<open>LIST_REMOVE\<close>
  dereferences it.
\<close>

definition gen_LIST_POP ::
  "sentinal_field \<Rightarrow> ('a, 'e) state \<Rightarrow> fault + ('a \<times> ('a, 'e) state)" where
  "gen_LIST_POP sentinal_f s =
     (let list_internal_temp = sget sentinal_f (sentinal s) in
      fbind (LIST_REMOVE (ptr list_internal_temp) s) (\<lambda>(r, s1).
      fbind (load (heap s1) list_internal_temp) (\<lambda>n.
      let list_internal_retval = entry n in
      fbind (free list_internal_temp (heap s1)) (\<lambda>h.
      Inr (list_internal_retval, s1\<lparr>heap := h\<rparr>)))))"

definition LIST_POPF :: "('a, 'e) state \<Rightarrow> fault + ('a \<times> ('a, 'e) state)" where
  "LIST_POPF s = gen_LIST_POP Head s"

definition LIST_POPB :: "('a, 'e) state \<Rightarrow> fault + ('a \<times> ('a, 'e) state)" where
  "LIST_POPB s = gen_LIST_POP Tail s"

subsection \<open>Traversal\<close>

text \<open>
  The callback of a traversal macro is a block of code that sees the loop variable
  \<^verbatim>\<open>var\<close> and the whole program state: a function from the pointer and the state to a
  fault or a new state. The \<^verbatim>\<open>while\<close> loops follow pointers and need not end (a
  cyclic chain of nodes), so they are partial functions: \<open>None\<close> is a loop that runs
  forever, \<open>Some (Inl e)\<close> a fault, \<open>Some (Inr s)\<close> a normal end in state \<open>s\<close>.
\<close>

type_synonym ('a, 'e) callback = "addr \<Rightarrow> ('a, 'e) state \<Rightarrow> fault + ('a, 'e) state"

text \<open>The loop of \<^verbatim>\<open>_LIST_FOR_EACH\<close>: \<^verbatim>\<open>while (var) { callback; var = var->direction; }\<close>\<close>

partial_function (option) for_each_loop ::
  "link_field \<Rightarrow> ('a, 'e) callback \<Rightarrow> addr \<Rightarrow> ('a, 'e) state \<Rightarrow> (fault + ('a, 'e) state) option" where
  "for_each_loop direction callback var s =
     (if var \<noteq> 0 then
        (case callback var s of
           Inl e \<Rightarrow> Some (Inl e)
         | Inr s1 \<Rightarrow>
             (case load (heap s1) var of
                Inl e \<Rightarrow> Some (Inl e)
              | Inr n \<Rightarrow> for_each_loop direction callback (lget direction n) s1))
      else Some (Inr s))"

definition gen_LIST_FOR_EACH ::
  "sentinal_field \<Rightarrow> link_field \<Rightarrow> ('a, 'e) callback \<Rightarrow> ('a, 'e) state
     \<Rightarrow> (fault + ('a, 'e) state) option" where
  "gen_LIST_FOR_EACH sentinal_f direction callback s =
     for_each_loop direction callback (sget sentinal_f (sentinal s)) s"

definition LIST_FOR_EACH ::
  "('a, 'e) callback \<Rightarrow> ('a, 'e) state \<Rightarrow> (fault + ('a, 'e) state) option" where
  "LIST_FOR_EACH callback s = gen_LIST_FOR_EACH Head Next callback s"

definition LIST_FOR_EACH_REV ::
  "('a, 'e) callback \<Rightarrow> ('a, 'e) state \<Rightarrow> (fault + ('a, 'e) state) option" where
  "LIST_FOR_EACH_REV callback s = gen_LIST_FOR_EACH Tail Prev callback s"

text \<open>
  The loop of \<^verbatim>\<open>_LIST_FOR_EACH_SAFE\<close>:
  \<^verbatim>\<open>while (var) { callback; var = temp; if (var) temp = var->direction; }\<close>
\<close>

partial_function (option) for_each_safe_loop ::
  "link_field \<Rightarrow> ('a, 'e) callback \<Rightarrow> addr \<Rightarrow> addr \<Rightarrow> ('a, 'e) state
     \<Rightarrow> (fault + ('a, 'e) state) option" where
  "for_each_safe_loop direction callback var temp s =
     (if var \<noteq> 0 then
        (case callback var s of
           Inl e \<Rightarrow> Some (Inl e)
         | Inr s1 \<Rightarrow>
             (if temp \<noteq> 0 then
                (case load (heap s1) temp of
                   Inl e \<Rightarrow> Some (Inl e)
                 | Inr n \<Rightarrow> for_each_safe_loop direction callback temp (lget direction n) s1)
              else for_each_safe_loop direction callback temp temp s1))
      else Some (Inr s))"

text \<open>
  \<^verbatim>\<open>_LIST_FOR_EACH_SAFE\<close>: \<^verbatim>\<open>var = (list)->sentinal; temp = NULL;
  if (var) temp = var->direction;\<close> and then the loop.
\<close>

definition gen_LIST_FOR_EACH_SAFE ::
  "sentinal_field \<Rightarrow> link_field \<Rightarrow> ('a, 'e) callback \<Rightarrow> ('a, 'e) state
     \<Rightarrow> (fault + ('a, 'e) state) option" where
  "gen_LIST_FOR_EACH_SAFE sentinal_f direction callback s =
     (let var = sget sentinal_f (sentinal s) in
      if var \<noteq> 0 then
        (case load (heap s) var of
           Inl e \<Rightarrow> Some (Inl e)
         | Inr n \<Rightarrow> for_each_safe_loop direction callback var (lget direction n) s)
      else for_each_safe_loop direction callback var 0 s)"

definition LIST_FOR_EACH_SAFE ::
  "('a, 'e) callback \<Rightarrow> ('a, 'e) state \<Rightarrow> (fault + ('a, 'e) state) option" where
  "LIST_FOR_EACH_SAFE callback s = gen_LIST_FOR_EACH_SAFE Head Next callback s"

definition LIST_FOR_EACH_REV_SAFE ::
  "('a, 'e) callback \<Rightarrow> ('a, 'e) state \<Rightarrow> (fault + ('a, 'e) state) option" where
  "LIST_FOR_EACH_REV_SAFE callback s = gen_LIST_FOR_EACH_SAFE Tail Prev callback s"

subsection \<open>Bulk destruction\<close>

text \<open>
  \<^verbatim>\<open>LIST_DESTROY(list)\<close>: the safe forward traversal whose callback deletes the loop
  variable.
\<close>

definition LIST_DESTROY :: "('a, 'e) state \<Rightarrow> (fault + ('a, 'e) state) option" where
  "LIST_DESTROY s = LIST_FOR_EACH_SAFE (\<lambda>list_internal_var. LIST_DEL (ptr list_internal_var)) s"

subsection \<open>Constructor\<close>

text \<open>
  The loop of \<^verbatim>\<open>new_list_T\<close>:
  \<^verbatim>\<open>for (size_t i = 0; i < len; i++) LIST_APPEND(&data, initializer[i]);\<close>
  The \<open>i\<close>-th pass makes the \<open>i\<close>-th call of \<^verbatim>\<open>malloc\<close>.
\<close>

function new_list_loop ::
  "addr list \<Rightarrow> 'a list \<Rightarrow> size_t \<Rightarrow> size_t \<Rightarrow> ('a, 'e) state \<Rightarrow> fault + ('a, 'e) state" where
  "new_list_loop ptrs initializer len i data =
     (if i < len then
        (case LIST_APPEND (malloc ptrs (unat i)) (index initializer i) data of
           Inl e \<Rightarrow> Inl e
         | Inr r \<Rightarrow> new_list_loop ptrs initializer len (i + 1) (snd r))
      else Inr data)"
  by pat_completeness auto
termination
proof (relation "measure (\<lambda>(ptrs, initializer, len, i, data). unat len - unat i)")
  show "wf (measure (\<lambda>(ptrs, initializer, len, i, data). unat len - unat i))"
    by simp
next
  fix ptrs :: "addr list" and initializer :: "'a list" and len i :: size_t
    and data :: "('a, 'e) state" and x2 :: "size_t \<times> ('a, 'e) state"
  assume "i < len"
  then have "unat i < unat len"
    by (simp add: word_less_nat_alt)
  moreover have "unat len < 2 ^ 64"
    using unsigned_less [of len, where 'a = nat] by simp
  ultimately have "unat i + unat (1 :: size_t) < 2 ^ LENGTH(64)"
    by simp
  then have "unat (i + 1) = unat i + unat (1 :: size_t)"
    by (simp only: unat_add_lem)
  with \<open>unat i < unat len\<close>
  show "((ptrs, initializer, len, i + 1, snd x2), (ptrs, initializer, len, i, data))
      \<in> measure (\<lambda>(ptrs, initializer, len, i, data). unat len - unat i)"
    by simp
qed

text \<open>
  \<^verbatim>\<open>new_list_T(initializer, len, d)\<close>. A null \<^verbatim>\<open>initializer\<close> is \<open>None\<close>. The function
  builds the sentinal in a local variable and returns it by value; the heap and the
  world it runs in are arguments.
\<close>

definition new_list ::
  "addr list \<Rightarrow> 'a list option \<Rightarrow> size_t \<Rightarrow> ('a, 'e) list_destructor \<Rightarrow> 'a heap \<Rightarrow> 'e
     \<Rightarrow> fault + ('a, 'e) state" where
  "new_list ptrs initializer len d h w =
     (let data = \<lparr>sentinal = \<lparr>head = 0, tail = 0, length' = 0, destructor = d\<rparr>,
                  heap = h, world = w\<rparr>
      in case initializer of
           None \<Rightarrow> Inr data
         | Some arr \<Rightarrow> new_list_loop ptrs arr len 0 data)"

declare new_list_loop.simps [simp del]

subsection \<open>Observing a list\<close>

text \<open>
  A read-only callback in the manner of the header's usage example
  (\<^verbatim>\<open>printf("...", elem->entry)\<close>): it reads the entry of \<^verbatim>\<open>var\<close> and hands it to the
  caller's world, leaving sentinal and heap alone.
\<close>

definition visit :: "('a \<Rightarrow> 'e \<Rightarrow> 'e) \<Rightarrow> ('a, 'e) callback" where
  "visit f var s = fbind (load (heap s) var) (\<lambda>n. Inr (s\<lparr>world := f (entry n) (world s)\<rparr>))"

text \<open>
  Walking the nodes from a pointer along one link field until null, as the test
  program does with \<^verbatim>\<open>while (p) { ...; p = p->next; }\<close>, collecting the node
  pointers. Like the traversal loops it need not end.
\<close>

partial_function (option) walk ::
  "link_field \<Rightarrow> 'a heap \<Rightarrow> addr \<Rightarrow> (fault + addr list) option" where
  "walk direction h p =
     (if p \<noteq> 0 then
        (case load h p of
           Inl e \<Rightarrow> Some (Inl e)
         | Inr n \<Rightarrow>
             Option.bind (walk direction h (lget direction n))
               (\<lambda>r. case r of Inl e \<Rightarrow> Some (Inl e) | Inr as \<Rightarrow> Some (Inr (p # as))))
      else Some (Inr []))"

text \<open>The entries stored in a sequence of nodes.\<close>

definition entries :: "'a heap \<Rightarrow> addr list \<Rightarrow> 'a list" where
  "entries h as = map (\<lambda>a. entry (the (h a))) as"

subsection \<open>The list a state represents\<close>

text \<open>
  \<open>chain d h as q\<close>: the nodes \<open>as\<close> are non-null and allocated, the field \<open>d\<close> of each
  points to the one after it, and that of the last to \<open>q\<close>.
\<close>

fun chain :: "link_field \<Rightarrow> 'a heap \<Rightarrow> addr list \<Rightarrow> addr \<Rightarrow> bool" where
  "chain d h [] q = True"
| "chain d h (a # as) q =
     (a \<noteq> 0 \<and> (case h a of None \<Rightarrow> False | Some n \<Rightarrow> lget d n = hd (as @ [q]))
      \<and> chain d h as q)"

text \<open>
  \<open>linked top bottom direction reverse l h as\<close>: the sentinal \<open>l\<close> and the heap \<open>h\<close> hold
  the list whose nodes are \<open>as\<close>, read from the \<open>bottom\<close> boundary to the \<open>top\<close> one
  along \<open>direction\<close>: the nodes are distinct, chained to null both ways, the boundary
  pointers are the first and the last node (null when there is none), and \<open>length\<close>
  counts them.
\<close>

definition linked ::
  "sentinal_field \<Rightarrow> sentinal_field \<Rightarrow> link_field \<Rightarrow> link_field
     \<Rightarrow> ('a, 'e) list_sentinal \<Rightarrow> 'a heap \<Rightarrow> addr list \<Rightarrow> bool" where
  "linked top_f bottom_f direction reverse l h as \<longleftrightarrow>
     distinct as \<and> chain direction h as 0 \<and> chain reverse h (rev as) 0
     \<and> sget bottom_f l = hd (as @ [0]) \<and> sget top_f l = hd (rev as @ [0])
     \<and> unat (length' l) = length as"

text \<open>\<open>is_list s as\<close>: the state holds the list of the nodes \<open>as\<close>, from head to tail.\<close>

definition is_list :: "('a, 'e) state \<Rightarrow> addr list \<Rightarrow> bool" where
  "is_list s as \<longleftrightarrow> linked Tail Head Next Prev (sentinal s) (heap s) as"

text \<open>
  The heap \<^verbatim>\<open>_LIST_ADD\<close> leaves when it adds the node \<open>p\<close> with entry \<open>v\<close> after the
  nodes \<open>as\<close> (read along \<open>direction\<close>), and the heap \<^verbatim>\<open>LIST_REMOVE\<close> leaves when it
  unlinks the node between the nodes \<open>xs\<close> and \<open>ys\<close>.
\<close>

definition add_heap :: "link_field \<Rightarrow> link_field \<Rightarrow> 'a heap \<Rightarrow> addr list \<Rightarrow> addr \<Rightarrow> 'a \<Rightarrow> 'a heap" where
  "add_heap direction reverse h as p v =
     (if as = [] then h(p \<mapsto> \<lparr>next = 0, prev = 0, entry = v\<rparr>)
      else h(last as \<mapsto> lput direction p (the (h (last as))),
             p \<mapsto> lput reverse (last as) \<lparr>next = 0, prev = 0, entry = v\<rparr>))"

definition unlink_heap :: "'a heap \<Rightarrow> addr list \<Rightarrow> addr list \<Rightarrow> 'a heap" where
  "unlink_heap h xs ys =
     (let h1 = (if xs = [] then h
                else h(last xs \<mapsto> lput Next (hd (ys @ [0])) (the (h (last xs)))))
      in if ys = [] then h1
         else h1(hd ys \<mapsto> lput Prev (hd (rev xs @ [0])) (the (h1 (hd ys)))))"

text \<open>
  The heap after the statement \<^verbatim>\<open>if (p) p->d = q;\<close> on an allocated or null \<open>p\<close>.
\<close>

definition set_link :: "link_field \<Rightarrow> addr \<Rightarrow> addr \<Rightarrow> 'a heap \<Rightarrow> 'a heap" where
  "set_link d p q h = (if p = 0 then h else h(p \<mapsto> lput d q (the (h p))))"

subsection \<open>Reachable states and the structural invariant\<close>

text \<open>
  A node is a live member of the list when the walk from head along next finds it.
\<close>

definition member :: "('a, 'e) state \<Rightarrow> addr \<Rightarrow> bool" where
  "member s elem \<longleftrightarrow>
     (case walk Next (heap s) (head (sentinal s)) of
        Some (Inr as) \<Rightarrow> elem \<in> set as
      | _ \<Rightarrow> False)"

text \<open>
  The states a program reaches with the list operations alone, each called within its
  contract: the allocator returns null or a block that is not allocated (and blocks
  that differ from each other within one constructor call); remove and delete are
  given a live member of the list, through a pointer variable that the macro does not
  assign. A call that faults or does not end reaches no state.
\<close>

inductive reachable_in_contract :: "('a, 'e) state \<Rightarrow> bool" where
  construct:
    "distinct ptrs \<Longrightarrow> \<forall>p \<in> set ptrs. p = 0 \<or> h p = None
       \<Longrightarrow> new_list ptrs initializer len d h w = Inr s \<Longrightarrow> reachable_in_contract s"
| append:
    "reachable_in_contract s \<Longrightarrow> p = 0 \<or> heap s p = None
       \<Longrightarrow> LIST_APPEND p (Inr v) s = Inr (n, s') \<Longrightarrow> reachable_in_contract s'"
| prepend:
    "reachable_in_contract s \<Longrightarrow> p = 0 \<or> heap s p = None
       \<Longrightarrow> LIST_PREPEND p (Inr v) s = Inr (n, s') \<Longrightarrow> reachable_in_contract s'"
| remove:
    "reachable_in_contract s \<Longrightarrow> member s elem
       \<Longrightarrow> LIST_REMOVE (ptr elem) s = Inr (n, s') \<Longrightarrow> reachable_in_contract s'"
| delete:
    "reachable_in_contract s \<Longrightarrow> member s elem
       \<Longrightarrow> LIST_DEL (ptr elem) s = Inr s' \<Longrightarrow> reachable_in_contract s'"
| popf:
    "reachable_in_contract s \<Longrightarrow> LIST_POPF s = Inr (v, s') \<Longrightarrow> reachable_in_contract s'"
| popb:
    "reachable_in_contract s \<Longrightarrow> LIST_POPB s = Inr (v, s') \<Longrightarrow> reachable_in_contract s'"
| destroy:
    "reachable_in_contract s \<Longrightarrow> LIST_DESTROY s = Some (Inr s') \<Longrightarrow> reachable_in_contract s'"

text \<open>
  The structural invariant: head is null iff tail is null iff length is 0; when length
  is 1, head and tail are the same node; the walk from head along next and the walk
  from tail along prev both end, find the same nodes in mutually reversed order, and
  length is the number of nodes walked.
\<close>

definition list_invariant :: "('a, 'e) state \<Rightarrow> bool" where
  "list_invariant s \<longleftrightarrow>
     (head (sentinal s) = 0 \<longleftrightarrow> tail (sentinal s) = 0)
     \<and> (tail (sentinal s) = 0 \<longleftrightarrow> length' (sentinal s) = 0)
     \<and> (length' (sentinal s) = 1 \<longrightarrow> head (sentinal s) = tail (sentinal s))
     \<and> (case (walk Next (heap s) (head (sentinal s)), walk Prev (heap s) (tail (sentinal s))) of
          (Some (Inr fw), Some (Inr bw)) \<Rightarrow> bw = rev fw \<and> unat (length' (sentinal s)) = length fw
        | _ \<Rightarrow> False)"

subsection \<open>An example state\<close>

text \<open>
  A list of three nodes at the addresses 1, 2 and 3 holding 10, 20 and 30, with a
  destructor that logs the element it is given in the caller's world, and beside it an
  allocated node at address 4 that is not linked into the list.
\<close>

definition example_list :: "(nat, nat list) state" where
  "example_list =
     \<lparr>sentinal = \<lparr>head = 1, tail = 3, length' = 3, destructor = Some (\<lambda>v log. log @ [v])\<rparr>,
      heap = [1 \<mapsto> \<lparr>next = 2, prev = 0, entry = 10\<rparr>,
              2 \<mapsto> \<lparr>next = 3, prev = 1, entry = 20\<rparr>,
              3 \<mapsto> \<lparr>next = 0, prev = 2, entry = 30\<rparr>,
              4 \<mapsto> \<lparr>next = 0, prev = 0, entry = 40\<rparr>],
      world = []\<rparr>"

text \<open>An empty list with the same destructor.\<close>

definition empty_list :: "(nat, nat list) state" where
  "empty_list =
     \<lparr>sentinal = \<lparr>head = 0, tail = 0, length' = 0, destructor = Some (\<lambda>v log. log @ [v])\<rparr>,
      heap = Map.empty, world = []\<rparr>"

text \<open>
  The same list with the nodes 4, 5 and 6 of a second list beside it, and a node 7
  whose prev pointer dangles.
\<close>

definition two_lists :: "(nat, nat list) state" where
  "two_lists =
     \<lparr>sentinal = \<lparr>head = 1, tail = 3, length' = 3, destructor = Some (\<lambda>v log. log @ [v])\<rparr>,
      heap = [1 \<mapsto> \<lparr>next = 2, prev = 0, entry = 10\<rparr>,
              2 \<mapsto> \<lparr>next = 3, prev = 1, entry = 20\<rparr>,
              3 \<mapsto> \<lparr>next = 0, prev = 2, entry = 30\<rparr>,
              4 \<mapsto> \<lparr>next = 5, prev = 0, entry = 40\<rparr>,
              5 \<mapsto> \<lparr>next = 6, prev = 4, entry = 50\<rparr>,
              6 \<mapsto> \<lparr>next = 0, prev = 5, entry = 60\<rparr>,
              7 \<mapsto> \<lparr>next = 0, prev = 9, entry = 70\<rparr>],
      world = []\<rparr>"

text \<open>Lists of two nodes and of one node, as the constructor builds them.\<close>

definition two_nodes :: "(nat, nat list) state" where
  "two_nodes =
     \<lparr>sentinal = \<lparr>head = 1, tail = 2, length' = 2, destructor = Some (\<lambda>v log. log @ [v])\<rparr>,
      heap = [1 \<mapsto> \<lparr>next = 2, prev = 0, entry = 10\<rparr>,
              2 \<mapsto> \<lparr>next = 0, prev = 1, entry = 20\<rparr>],
      world = []\<rparr>"

definition one_node :: "(nat, nat list) state" where
  "one_node =
     \<lparr>sentinal = \<lparr>head = 1, tail = 1, length' = 1, destructor = Some (\<lambda>v log. log @ [v])\<rparr>,
      heap = [1 \<mapsto> \<lparr>next = 0, prev = 0, entry = 10\<rparr>],
      world = []\<rparr>"

section \<open>Lemmas\<close>

subsection \<open>Fields and faults\<close>

lemma fbind_simps [simp]: "fbind (Inl e) f = Inl e" "fbind (Inr v) f = f v"
  by (simp_all add: fbind_def)

lemma fbind_if: "fbind (if c then a else b) f = (if c then fbind a f else fbind b f)"
  by (rule if_distrib)

lemma fbind_assoc: "fbind (fbind m f) g = fbind m (\<lambda>x. fbind (f x) g)"
  by (cases m) simp_all

lemma state_update_commute:
  "s\<lparr>sentinal := l, heap := h\<rparr> = s\<lparr>heap := h, sentinal := l\<rparr>"
  by simp

text \<open>
  Given a pointer variable, every evaluation of the argument yields the same pointer,
  and the two macros are functions of that pointer.
\<close>

lemma LIST_REMOVE_ptr:
  "LIST_REMOVE (ptr elem) s =
     fbind (load (heap s) elem) (\<lambda>e0.
     fbind (if prev e0 \<noteq> 0 then store (heap s) (prev e0) (lput Next (next e0))
            else Inr (heap s)) (\<lambda>h1.
     fbind (load h1 elem) (\<lambda>e1.
     fbind (if next e1 \<noteq> 0 then store h1 (next e1) (lput Prev (prev e1))
            else Inr h1) (\<lambda>h2.
     let l0 = sentinal s in
     fbind (if elem = head l0
            then fbind (load h2 (head l0)) (\<lambda>n. Inr (l0\<lparr>head := next n\<rparr>))
            else Inr l0) (\<lambda>l1.
     fbind (if elem = tail l1
            then fbind (load h2 (tail l1)) (\<lambda>n. Inr (l1\<lparr>tail := prev n\<rparr>))
            else Inr l1) (\<lambda>l2.
     Inr (length' l2, s\<lparr>sentinal := l2\<lparr>length' := length' l2 - 1\<rparr>, heap := h2\<rparr>)))))))"
  by (simp add: LIST_REMOVE_def ptr_def Let_def fbind_if fbind_assoc state_update_commute
      cong: if_cong)

lemma LIST_DEL_ptr:
  "LIST_DEL (ptr elem) s =
     fbind (LIST_REMOVE (ptr elem) s) (\<lambda>(r, s1).
     fbind (case destructor (sentinal s1) of
              None \<Rightarrow> Inr s1
            | Some d \<Rightarrow>
                fbind (load (heap s1) elem) (\<lambda>n. Inr (s1\<lparr>world := d (entry n) (world s1)\<rparr>)))
       (\<lambda>s2.
     fbind (free elem (heap s2)) (\<lambda>h. Inr (s2\<lparr>heap := h\<rparr>))))"
  unfolding LIST_DEL_def ptr_def fbind_simps by (rule refl)

lemma sget_sput: "sget f (sput g p l) = (if f = g then p else sget f l)"
  by (cases f; cases g) simp_all

lemma sget_length'_update [simp]: "sget f (l\<lparr>length' := x\<rparr>) = sget f l"
  by (cases f) simp_all

lemma lget_eta: "lget Next = next" "lget Prev = prev"
  by (rule ext, simp)+

lemma lget_lput: "lget d (lput r p n) = (if d = r then p else lget d n)"
  by (cases d; cases r) simp_all

lemma entry_lput [simp]: "entry (lput d p n) = entry n"
  by (cases d) simp_all

lemma length'_sput [simp]: "length' (sput f p l) = length' l"
  by (cases f) simp_all

lemma destructor_sput [simp]: "destructor (sput f p l) = destructor l"
  by (cases f) simp_all

subsection \<open>Chains of nodes\<close>

lemma chain_append:
  "chain d h (xs @ ys) q \<longleftrightarrow> chain d h xs (hd (ys @ [q])) \<and> chain d h ys q"
  by (induction xs) (auto simp: hd_append split: option.splits)

lemma chain_nonnull: "chain d h as q \<Longrightarrow> 0 \<notin> set as"
  by (induction as) auto

lemma chain_alloc: "chain d h as q \<Longrightarrow> a \<in> set as \<Longrightarrow> \<exists>n. h a = Some n"
  by (induction as) (auto split: option.splits)

lemma chain_frame:
  "chain d h as q \<Longrightarrow> (\<And>a. a \<in> set as \<Longrightarrow> map_option (lget d) (h' a) = map_option (lget d) (h a))
     \<Longrightarrow> chain d h' as q"
proof (induction as)
  case Nil
  then show ?case by simp
next
  case (Cons a as)
  from Cons.prems(2) [of a] Cons.prems(1) have "case h' a of None \<Rightarrow> False | Some n \<Rightarrow> lget d n = hd (as @ [q])"
    by (auto split: option.splits)
  moreover have "chain d h' as q"
    using Cons by simp
  ultimately show ?case using Cons.prems(1) by simp
qed

lemma chain_retarget:
  "chain d h xs q \<Longrightarrow> xs \<noteq> [] \<Longrightarrow> distinct xs \<Longrightarrow> h (last xs) = Some n
     \<Longrightarrow> chain d (h(last xs \<mapsto> lput d q' n)) xs q'"
proof (induction xs)
  case Nil
  then show ?case by simp
next
  case (Cons a xs)
  show ?case
  proof (cases "xs = []")
    case True
    with Cons.prems show ?thesis by (simp add: lget_lput)
  next
    case False
    from False Cons.prems have l: "h (last xs) = Some n" and c: "chain d h xs q" and dx: "distinct xs"
      by simp_all
    have "chain d (h(last xs \<mapsto> lput d q' n)) xs q'"
      by (rule Cons.IH [OF c False dx l])
    moreover from False Cons.prems have "a \<noteq> last xs" by auto
    moreover from False have "hd (xs @ [q']) = hd (xs @ [q])" by (simp add: hd_append)
    moreover from Cons.prems(1) have "a \<noteq> 0" "chain d h xs q"
      "case h a of None \<Rightarrow> False | Some n \<Rightarrow> lget d n = hd (xs @ [q])" by simp_all
    moreover from False have "last (a # xs) = last xs" by simp
    ultimately show ?thesis
      unfolding \<open>last (a # xs) = last xs\<close> chain.simps
      by (simp only: fun_upd_other simp_thms)
  qed
qed

lemma length_distinct_nonnull:
  fixes xs :: "addr list"
  assumes "distinct xs" "0 \<notin> set xs"
  shows "length xs < 2 ^ 64"
proof -
  have "set xs \<subseteq> UNIV - {0}" using assms by auto
  then have "card (set xs) \<le> card (UNIV - {0 :: addr})"
    by (intro card_mono) auto
  also have "\<dots> = 2 ^ 64 - 1"
    by (simp add: card_Diff_singleton card_word)
  finally show ?thesis using assms(1) by (simp add: distinct_card)
qed

subsection \<open>Insertion at a boundary\<close>

lemma load_Some: "p \<noteq> 0 \<Longrightarrow> h p = Some n \<Longrightarrow> load h p = Inr n"
  by (simp add: load_def)

lemma store_Some: "p \<noteq> 0 \<Longrightarrow> h p = Some n \<Longrightarrow> store h p f = Inr (h(p \<mapsto> f n))"
  by (simp add: store_def load_def)

lemma chain_last:
  "chain d h as q \<Longrightarrow> as \<noteq> [] \<Longrightarrow> last as \<noteq> 0 \<and> (\<exists>n. h (last as) = Some n \<and> lget d n = q)"
  by (induction as) (auto split: option.splits)

lemma chain_hd:
  "chain d h as q \<Longrightarrow> as \<noteq> [] \<Longrightarrow> hd as \<noteq> 0 \<and> (\<exists>n. h (hd as) = Some n \<and> lget d n = hd (tl as @ [q]))"
  by (cases as) (auto split: option.splits)

lemma gen_LIST_ADD_eq:
  assumes fields: "(top_f, bottom_f, direction, reverse) = (Tail, Head, Next, Prev)
      \<or> (top_f, bottom_f, direction, reverse) = (Head, Tail, Prev, Next)"
    and l: "linked top_f bottom_f direction reverse (sentinal s) (heap s) as"
    and p: "p \<noteq> 0" "heap s p = None"
  shows "gen_LIST_ADD p (Inr v) top_f bottom_f direction reverse s =
     Inr (length' (sentinal s) + 1,
          s\<lparr>sentinal := (sput top_f p (if as = [] then sput bottom_f p (sentinal s) else sentinal s))
                \<lparr>length' := length' (sentinal s) + 1\<rparr>,
            heap := add_heap direction reverse (heap s) as p v\<rparr>)"
proof (cases "as = []")
  case True
  with l have "sget bottom_f (sentinal s) = 0" "sget top_f (sentinal s) = 0"
    by (simp_all add: linked_def)
  moreover from fields have "top_f \<noteq> bottom_f" by auto
  ultimately show ?thesis using p True
    by (simp add: gen_LIST_ADD_def add_heap_def sget_sput)
next
  case False
  from l have c: "chain reverse (heap s) (rev as) 0" "chain direction (heap s) as 0"
    and b: "sget bottom_f (sentinal s) = hd (as @ [0])" and t: "sget top_f (sentinal s) = hd (rev as @ [0])"
    by (simp_all add: linked_def)
  from chain_last [OF c(2) False] obtain n where n: "last as \<noteq> 0" "heap s (last as) = Some n"
    by auto
  from chain_hd [OF c(2) False] have "hd as \<noteq> 0" by simp
  with b False have b0: "sget bottom_f (sentinal s) \<noteq> 0" by (simp add: hd_append)
  from t False have t': "sget top_f (sentinal s) = last as" by (simp add: hd_append hd_rev)
  from n p have neq: "last as \<noteq> p" by auto
  show ?thesis using p False b0 t' n neq
    by (simp add: gen_LIST_ADD_def add_heap_def store_Some)
qed

lemma add_heap_linked:
  assumes fields: "(top_f, bottom_f, direction, reverse) = (Tail, Head, Next, Prev)
      \<or> (top_f, bottom_f, direction, reverse) = (Head, Tail, Prev, Next)"
    and l: "linked top_f bottom_f direction reverse l h as"
    and p: "p \<noteq> 0" "h p = None"
  shows "linked top_f bottom_f direction reverse
     ((sput top_f p (if as = [] then sput bottom_f p l else l))\<lparr>length' := length' l + 1\<rparr>)
     (add_heap direction reverse h as p v) (as @ [p])"
proof -
  from fields have dr: "direction \<noteq> reverse" and tb: "top_f \<noteq> bottom_f" by auto
  from l have d: "distinct as" and c: "chain reverse h (rev as) 0" "chain direction h as 0"
    and b: "sget bottom_f l = hd (as @ [0])" and t: "sget top_f l = hd (rev as @ [0])"
    and len: "unat (length' l) = length as"
    by (simp_all add: linked_def)
  from chain_alloc [OF c(2), of p] p have pn: "p \<notin> set as" by auto
  let ?h = "add_heap direction reverse h as p v"
  have hp: "?h p = Some (lput reverse (hd (rev as @ [0])) \<lparr>next = 0, prev = 0, entry = v\<rparr>)"
    using fields by (auto simp: add_heap_def hd_rev)
  have 1: "distinct (as @ [p])" using d pn by simp
  have 2: "chain direction ?h (as @ [p]) 0"
  proof -
    have "chain direction ?h [p] 0"
      using p hp dr by (simp add: lget_lput del: lput.simps) (use fields in auto)
    moreover have "chain direction ?h as p"
    proof (cases "as = []")
      case False
      from chain_last [OF c(2) False] obtain n where n: "h (last as) = Some n" by auto
      have "chain direction (h(last as \<mapsto> lput direction p n)) as p"
        by (rule chain_retarget [OF c(2) False d n])
      then show ?thesis
        by (rule chain_frame) (use pn n False in \<open>auto simp: add_heap_def\<close>)
    qed simp
    ultimately show ?thesis by (simp add: chain_append)
  qed
  have 3: "chain reverse ?h (rev (as @ [p])) 0"
  proof -
    have "chain reverse ?h (rev as) 0"
      using c(1)
    proof (rule chain_frame)
      fix a assume "a \<in> set (rev as)"
      with pn have "a \<noteq> p" by auto
      then show "map_option (lget reverse) (?h a) = map_option (lget reverse) (h a)"
        using chain_last [OF c(2)] dr by (auto simp: add_heap_def lget_lput)
    qed
    then show ?thesis using p hp by (simp add: lget_lput)
  qed
  have 4: "unat (length' l + 1) = length (as @ [p])"
  proof -
    from 2 have "0 \<notin> set (as @ [p])" by (rule chain_nonnull)
    with 1 have "length (as @ [p]) < 2 ^ 64" by (rule length_distinct_nonnull)
    with len have "unat (length' l) + unat (1 :: size_t) < 2 ^ LENGTH(64)" by simp
    then have "unat (length' l + 1) = unat (length' l) + unat (1 :: size_t)"
      by (simp only: unat_add_lem)
    with len show ?thesis by simp
  qed
  show ?thesis
    unfolding linked_def using 1 2 3 4 b tb
    by (auto simp: sget_sput hd_append)
qed

subsection \<open>Unlinking a node\<close>

lemma is_list_split:
  assumes "is_list s (xs @ e # ys)"
  shows "chain Next (heap s) xs e" "chain Next (heap s) ys 0"
    "chain Prev (heap s) (rev ys) e" "chain Prev (heap s) (rev xs) 0"
    "e \<noteq> 0" "\<exists>n. heap s e = Some n \<and> next n = hd (ys @ [0]) \<and> prev n = hd (rev xs @ [0])"
    "distinct xs" "distinct ys" "e \<notin> set xs" "e \<notin> set ys" "set xs \<inter> set ys = {}"
    "head (sentinal s) = hd (xs @ [e])" "tail (sentinal s) = hd (rev ys @ [e])"
    "unat (length' (sentinal s)) = Suc (length xs + length ys)"
  using assms
  by (auto simp: is_list_def linked_def chain_append hd_append split: option.splits)

lemma LIST_REMOVE_eq:
  assumes l: "is_list s (xs @ e # ys)"
  shows "LIST_REMOVE (ptr e) s =
     Inr (length' (sentinal s),
          s\<lparr>sentinal := (sentinal s)\<lparr>head := hd (xs @ ys @ [0]), tail := hd (rev ys @ rev xs @ [0]),
                                     length' := length' (sentinal s) - 1\<rparr>,
            heap := unlink_heap (heap s) xs ys\<rparr>)"
proof -
  note f = is_list_split [OF l]
  from f(6) obtain n where n: "heap s e = Some n" "next n = hd (ys @ [0])" "prev n = hd (rev xs @ [0])"
    by auto
  define h1 where "h1 = (if xs = [] then heap s
     else (heap s)(last xs \<mapsto> lput Next (hd (ys @ [0])) (the (heap s (last xs)))))"
  define h2 where "h2 = unlink_heap (heap s) xs ys"
  define l1 where "l1 = (sentinal s)\<lparr>head := hd (xs @ ys @ [0])\<rparr>"
  define l2 where "l2 = l1\<lparr>tail := hd (rev ys @ rev xs @ [0])\<rparr>"
  have 0: "load (heap s) e = Inr n"
    using f(5) n(1) by (rule load_Some)
  have 1: "(if prev n \<noteq> 0 then store (heap s) (prev n) (lput Next (next n)) else Inr (heap s)) = Inr h1"
  proof (cases "xs = []")
    case True
    with n show ?thesis by (simp add: h1_def)
  next
    case False
    from chain_last [OF f(1) False] obtain m where "last xs \<noteq> 0" "heap s (last xs) = Some m" by auto
    with False n show ?thesis by (simp add: hd_append hd_rev store_Some h1_def)
  qed
  have "h1 e = Some n"
    using f(9) n(1) by (auto simp: h1_def)
  with f(5) have 2: "load h1 e = Inr n" by (rule load_Some)
  have 3: "(if next n \<noteq> 0 then store h1 (next n) (lput Prev (prev n)) else Inr h1) = Inr h2"
  proof (cases "ys = []")
    case True
    with n show ?thesis by (simp add: unlink_heap_def h1_def h2_def)
  next
    case False
    from chain_hd [OF f(2) False] obtain m where m: "hd ys \<noteq> 0" "heap s (hd ys) = Some m" by auto
    from False f(11) have "xs \<noteq> [] \<Longrightarrow> hd ys \<noteq> last xs"
      by (metis disjoint_iff hd_in_set last_in_set)
    with m have "\<exists>m'. h1 (hd ys) = Some m'" by (auto simp: h1_def)
    then obtain m' where m': "h1 (hd ys) = Some m'" by blast
    have "h2 = h1(hd ys \<mapsto> lput Prev (hd (rev xs @ [0])) m')"
      using False m' by (simp add: h2_def unlink_heap_def h1_def [symmetric])
    with False n m(1) m' show ?thesis
      by (simp add: hd_append store_Some del: lput.simps)
  qed
  have "h2 e = Some n"
  proof -
    have "ys \<noteq> [] \<Longrightarrow> hd ys \<noteq> e" using f(10) by auto
    moreover have "xs \<noteq> [] \<Longrightarrow> last xs \<noteq> e" using f(9) by auto
    ultimately show ?thesis
      using n(1) by (cases "xs = []"; cases "ys = []") (simp_all add: h2_def unlink_heap_def Let_def)
  qed
  with f(5) have 4: "load h2 e = Inr n" by (rule load_Some)
  have 5: "(if e = head (sentinal s)
            then fbind (load h2 (head (sentinal s))) (\<lambda>n. Inr ((sentinal s)\<lparr>head := next n\<rparr>))
            else Inr (sentinal s)) = Inr l1"
  proof (cases "xs = []")
    case True
    with f(12) have "head (sentinal s) = e" by simp
    with 4 n True show ?thesis by (simp add: l1_def)
  next
    case False
    with f(9,12) have "e \<noteq> head (sentinal s)" "head (sentinal s) = hd (xs @ ys @ [0])"
      by (auto simp: hd_append)
    then show ?thesis by (simp add: l1_def)
  qed
  have 6: "(if e = tail l1
            then fbind (load h2 (tail l1)) (\<lambda>n. Inr (l1\<lparr>tail := prev n\<rparr>))
            else Inr l1) = Inr l2"
  proof (cases "ys = []")
    case True
    with f(13) have "tail l1 = e" by (simp add: l1_def)
    with 4 n True show ?thesis by (simp add: l2_def)
  next
    case False
    with f(10,13) have "e \<noteq> tail l1" "tail l1 = hd (rev ys @ rev xs @ [0])"
      by (auto simp: hd_append hd_rev l1_def)
    then show ?thesis by (simp add: l2_def)
  qed
  have "LIST_REMOVE (ptr e) s = Inr (length' l2, s\<lparr>sentinal := l2\<lparr>length' := length' l2 - 1\<rparr>, heap := h2\<rparr>)"
    unfolding LIST_REMOVE_ptr
    by (simp only: 0 1 2 3 5 6 fbind_simps Let_def)
  then show ?thesis
    by (simp add: l2_def l1_def h2_def)
qed

lemma unlink_heap_apply:
  assumes "xs \<noteq> [] \<Longrightarrow> \<exists>n. h (last xs) = Some n" "ys \<noteq> [] \<Longrightarrow> \<exists>n. h (hd ys) = Some n"
    "set xs \<inter> set ys = {}"
  shows "unlink_heap h xs ys a =
     (if ys \<noteq> [] \<and> a = hd ys then map_option (lput Prev (hd (rev xs @ [0]))) (h a)
      else if xs \<noteq> [] \<and> a = last xs then map_option (lput Next (hd (ys @ [0]))) (h a)
      else h a)"
proof -
  have "xs \<noteq> [] \<Longrightarrow> ys \<noteq> [] \<Longrightarrow> hd ys \<noteq> last xs"
    using assms(3) by (metis disjoint_iff hd_in_set last_in_set)
  then show ?thesis
    using assms(1,2)
    by (cases "xs = []"; cases "ys = []") (auto simp: unlink_heap_def Let_def)
qed

lemma unlink_heap_linked:
  assumes l: "is_list s (xs @ e # ys)"
  shows "linked Tail Head Next Prev
     ((sentinal s)\<lparr>head := hd (xs @ ys @ [0]), tail := hd (rev ys @ rev xs @ [0]),
                   length' := length' (sentinal s) - 1\<rparr>)
     (unlink_heap (heap s) xs ys) (xs @ ys)"
proof -
  note f = is_list_split [OF l]
  let ?h = "heap s" and ?h2 = "unlink_heap (heap s) xs ys"
  have ax: "xs \<noteq> [] \<Longrightarrow> \<exists>n. ?h (last xs) = Some n"
    using chain_last [OF f(1)] by auto
  have ay: "ys \<noteq> [] \<Longrightarrow> \<exists>n. ?h (hd ys) = Some n"
    using chain_hd [OF f(2)] by auto
  note ap = unlink_heap_apply [OF ax ay f(11)]
  have nx: "a \<in> set xs \<Longrightarrow> \<not> (ys \<noteq> [] \<and> a = hd ys)" for a
    using f(11) by (metis disjoint_iff hd_in_set)
  have ny: "a \<in> set ys \<Longrightarrow> \<not> (xs \<noteq> [] \<and> a = last xs)" for a
    using f(11) by (metis disjoint_iff last_in_set)
  have 1: "chain Next ?h2 ys 0"
    using f(2)
  proof (rule chain_frame)
    fix a assume "a \<in> set ys"
    from ny [OF this] show "map_option (lget Next) (?h2 a) = map_option (lget Next) (?h a)"
      by (auto simp: ap option.map_comp comp_def lget_eta)
  qed
  have 2: "chain Prev ?h2 (rev xs) 0"
    using f(4)
  proof (rule chain_frame)
    fix a assume "a \<in> set (rev xs)"
    then have "a \<in> set xs" by simp
    from nx [OF this] show "map_option (lget Prev) (?h2 a) = map_option (lget Prev) (?h a)"
      by (auto simp: ap option.map_comp comp_def lget_eta)
  qed
  have 3: "chain Next ?h2 xs (hd (ys @ [0]))"
  proof (cases "xs = []")
    case False
    from ax [OF False] obtain n where n: "?h (last xs) = Some n" by blast
    have "chain Next (?h(last xs \<mapsto> lput Next (hd (ys @ [0])) n)) xs (hd (ys @ [0]))"
      by (rule chain_retarget [OF f(1) False f(7) n])
    then show ?thesis
    proof (rule chain_frame)
      fix a assume "a \<in> set xs"
      from nx [OF this] n False
      show "map_option (lget Next) (?h2 a) =
          map_option (lget Next) ((?h(last xs \<mapsto> lput Next (hd (ys @ [0])) n)) a)"
        by (auto simp: ap)
    qed
  qed simp
  have 4: "chain Prev ?h2 (rev ys) (hd (rev xs @ [0]))"
  proof (cases "ys = []")
    case False
    from ay [OF False] obtain n where n: "?h (hd ys) = Some n" by blast
    from False have ly: "last (rev ys) = hd ys" by (simp add: last_rev)
    from False have ry: "rev ys \<noteq> []" by simp
    from f(8) have dy: "distinct (rev ys)" by simp
    from n ly have n': "?h (last (rev ys)) = Some n" by simp
    have "chain Prev (?h(last (rev ys) \<mapsto> lput Prev (hd (rev xs @ [0])) n)) (rev ys) (hd (rev xs @ [0]))"
      by (rule chain_retarget [OF f(3) ry dy n'])
    then show ?thesis
    proof (rule chain_frame)
      fix a assume "a \<in> set (rev ys)"
      then have "a \<in> set ys" by simp
      from ny [OF this] n False
      show "map_option (lget Prev) (?h2 a) =
          map_option (lget Prev) ((?h(last (rev ys) \<mapsto> lput Prev (hd (rev xs @ [0])) n)) a)"
        by (auto simp: ap ly)
    qed
  qed simp
  have 5: "unat (length' (sentinal s) - 1) = length (xs @ ys)"
  proof -
    from f(14) have "1 \<le> length' (sentinal s)"
      by (simp add: word_le_nat_alt)
    then have "unat (length' (sentinal s) - 1) = unat (length' (sentinal s)) - unat (1 :: size_t)"
      by (rule unat_sub)
    with f(14) show ?thesis by simp
  qed
  show ?thesis
    unfolding linked_def
    using 1 2 3 4 5 f(7,8,11) by (simp add: chain_append)
qed

subsection \<open>Append and prepend on lists\<close>

lemma linked_rev:
  "linked Head Tail Prev Next l h (rev as) \<longleftrightarrow> linked Tail Head Next Prev l h as"
  by (auto simp: linked_def)

lemma entries_rev: "entries h (rev as) = rev (entries h as)"
  by (simp add: entries_def rev_map)

lemma add_heap_entries:
  "p \<notin> set as \<Longrightarrow> entries (add_heap d r h as p v) (as @ [p]) = entries h as @ [v]"
  by (auto simp: entries_def add_heap_def)

lemma entries_Cons: "entries h (a # as) = entry (the (h a)) # entries h as"
  by (simp add: entries_def)

lemma add_heap_dom:
  "as \<noteq> [] \<longrightarrow> h (last as) \<noteq> None \<Longrightarrow> dom (add_heap d r h as p v) = insert p (dom h)"
  by (auto simp: add_heap_def split: if_splits)

lemma is_list_alloc: "is_list s as \<Longrightarrow> a \<in> set as \<Longrightarrow> a \<noteq> 0 \<and> (\<exists>n. heap s a = Some n)"
  unfolding is_list_def linked_def
  by (auto dest: chain_alloc chain_nonnull)

lemma LIST_APPEND_is_list:
  assumes l: "is_list s as" and p: "p \<noteq> 0" "heap s p = None"
  shows "\<exists>s'. LIST_APPEND p (Inr v) s = Inr (length' (sentinal s) + 1, s')
     \<and> is_list s' (as @ [p]) \<and> entries (heap s') (as @ [p]) = entries (heap s) as @ [v]
     \<and> length' (sentinal s') = length' (sentinal s) + 1
     \<and> destructor (sentinal s') = destructor (sentinal s) \<and> world s' = world s
     \<and> dom (heap s') = insert p (dom (heap s))
     \<and> heap s' = add_heap Next Prev (heap s) as p v"
proof -
  have fields: "(Tail, Head, Next, Prev) = (Tail, Head, Next, Prev)
      \<or> (Tail, Head, Next, Prev) = (Head, Tail, Prev, Next)" by simp
  from l have l': "linked Tail Head Next Prev (sentinal s) (heap s) as" by (simp add: is_list_def)
  from is_list_alloc [OF l, of p] p have pn: "p \<notin> set as" by auto
  have al: "as \<noteq> [] \<longrightarrow> heap s (last as) \<noteq> None"
    using is_list_alloc [OF l, of "last as"] by auto
  let ?s' = "s\<lparr>sentinal := (sput Tail p (if as = [] then sput Head p (sentinal s) else sentinal s))
                \<lparr>length' := length' (sentinal s) + 1\<rparr>,
            heap := add_heap Next Prev (heap s) as p v\<rparr>"
  have "LIST_APPEND p (Inr v) s = Inr (length' (sentinal s) + 1, ?s')"
    unfolding LIST_APPEND_def by (rule gen_LIST_ADD_eq [OF fields l' p])
  moreover have "is_list ?s' (as @ [p])"
    using add_heap_linked [OF fields l' p, of v] by (simp add: is_list_def)
  moreover have "entries (heap ?s') (as @ [p]) = entries (heap s) as @ [v]"
    by (simp add: add_heap_entries [OF pn])
  moreover have "dom (heap ?s') = insert p (dom (heap s))"
    by (simp add: add_heap_dom [of as "heap s", OF al])
  moreover have "length' (sentinal ?s') = length' (sentinal s) + 1"
    "destructor (sentinal ?s') = destructor (sentinal s)" "world ?s' = world s"
    "heap ?s' = add_heap Next Prev (heap s) as p v"
    by simp_all
  ultimately show ?thesis by blast
qed

lemma LIST_PREPEND_is_list:
  assumes l: "is_list s as" and p: "p \<noteq> 0" "heap s p = None"
  shows "\<exists>s'. LIST_PREPEND p (Inr v) s = Inr (length' (sentinal s) + 1, s')
     \<and> is_list s' (p # as) \<and> entries (heap s') (p # as) = v # entries (heap s) as
     \<and> length' (sentinal s') = length' (sentinal s) + 1
     \<and> destructor (sentinal s') = destructor (sentinal s) \<and> world s' = world s
     \<and> dom (heap s') = insert p (dom (heap s))
     \<and> heap s' = add_heap Prev Next (heap s) (rev as) p v"
proof -
  have fields: "(Head, Tail, Prev, Next) = (Tail, Head, Next, Prev)
      \<or> (Head, Tail, Prev, Next) = (Head, Tail, Prev, Next)" by simp
  from l have l': "linked Head Tail Prev Next (sentinal s) (heap s) (rev as)"
    by (simp add: is_list_def linked_rev)
  from is_list_alloc [OF l, of p] p have pn: "p \<notin> set (rev as)" by auto
  have al: "rev as \<noteq> [] \<longrightarrow> heap s (last (rev as)) \<noteq> None"
    using is_list_alloc [OF l, of "last (rev as)"] by (auto simp: last_rev)
  let ?s' = "s\<lparr>sentinal := (sput Head p (if rev as = [] then sput Tail p (sentinal s) else sentinal s))
                \<lparr>length' := length' (sentinal s) + 1\<rparr>,
            heap := add_heap Prev Next (heap s) (rev as) p v\<rparr>"
  have "linked Head Tail Prev Next (sentinal ?s') (heap ?s') (rev (p # as))"
    using add_heap_linked [OF fields l' p, of v] by simp
  then have "is_list ?s' (p # as)"
    by (simp only: linked_rev is_list_def)
  moreover have "entries (heap ?s') (p # as) = v # entries (heap s) as"
  proof -
    have "entries (heap ?s') (rev (rev as @ [p])) = rev (entries (heap s) (rev as) @ [v])"
      unfolding entries_rev [of _ "rev as @ [p]"]
      using add_heap_entries [OF pn, of Prev Next "heap s" v] by simp
    then show ?thesis by (simp add: entries_rev)
  qed
  moreover have "LIST_PREPEND p (Inr v) s = Inr (length' (sentinal s) + 1, ?s')"
    unfolding LIST_PREPEND_def by (rule gen_LIST_ADD_eq [OF fields l' p])
  moreover have "dom (heap ?s') = insert p (dom (heap s))"
    by (simp add: add_heap_dom [of "rev as" "heap s", OF al])
  moreover have "length' (sentinal ?s') = length' (sentinal s) + 1"
    "destructor (sentinal ?s') = destructor (sentinal s)" "world ?s' = world s"
    "heap ?s' = add_heap Prev Next (heap s) (rev as) p v"
    by simp_all
  ultimately show ?thesis by blast
qed

subsection \<open>The constructor loop\<close>

lemma unat_succ_less:
  fixes i len :: size_t
  assumes "i < len"
  shows "unat (i + 1) = Suc (unat i)" "unat i < unat len"
proof -
  from assms show l: "unat i < unat len"
    by (simp add: word_less_nat_alt)
  moreover have "unat len < 2 ^ 64"
    using unsigned_less [of len, where 'a = nat] by simp
  ultimately have "unat i + unat (1 :: size_t) < 2 ^ LENGTH(64)"
    by simp
  then have "unat (i + 1) = unat i + unat (1 :: size_t)"
    by (simp only: unat_add_lem)
  then show "unat (i + 1) = Suc (unat i)" by simp
qed

lemma drop_take_Cons:
  "n < m \<Longrightarrow> m \<le> length xs \<Longrightarrow> drop n (take m xs) = xs ! n # drop (Suc n) (take m xs)"
  using Cons_nth_drop_Suc [of n "take m xs"] by simp

lemma new_list_loop_is_list:
  assumes "is_list s as" "unat len \<le> length arr" "unat len \<le> length ptrs"
    "distinct (drop (unat i) (take (unat len) ptrs))"
    "\<forall>p \<in> set (drop (unat i) (take (unat len) ptrs)). p \<noteq> 0 \<and> heap s p = None"
  shows "\<exists>s'. new_list_loop ptrs arr len i s = Inr s'
     \<and> is_list s' (as @ drop (unat i) (take (unat len) ptrs))
     \<and> entries (heap s') (as @ drop (unat i) (take (unat len) ptrs))
         = entries (heap s) as @ drop (unat i) (take (unat len) arr)
     \<and> destructor (sentinal s') = destructor (sentinal s) \<and> world s' = world s
     \<and> dom (heap s') = dom (heap s) \<union> set (drop (unat i) (take (unat len) ptrs))"
  using assms
proof (induction ptrs arr len i s arbitrary: as rule: new_list_loop.induct)
  case (1 ptrs arr len i s)
  show ?case
  proof (cases "i < len")
    case False
    then have "unat len \<le> unat i" by (simp add: word_less_nat_alt)
    then have "drop (unat i) (take (unat len) ptrs) = []" "drop (unat i) (take (unat len) arr) = []"
      by simp_all
    with False "1.prems"(1) show ?thesis
      by (subst new_list_loop.simps) simp
  next
    case True
    note u = unat_succ_less [OF True]
    let ?p = "ptrs ! unat i"
    have rp: "drop (unat i) (take (unat len) ptrs) = ?p # drop (unat (i + 1)) (take (unat len) ptrs)"
      using u "1.prems"(3) by (simp add: drop_take_Cons)
    have ra: "drop (unat i) (take (unat len) arr) = arr ! unat i # drop (unat (i + 1)) (take (unat len) arr)"
      using u "1.prems"(2) by (simp add: drop_take_Cons)
    have m: "malloc ptrs (unat i) = ?p" using u "1.prems"(3) by (simp add: malloc_def)
    have ix: "index arr i = Inr (arr ! unat i)" using u "1.prems"(2) by (simp add: index_def)
    from "1.prems"(5) rp have p: "?p \<noteq> 0" "heap s ?p = None" by simp_all
    from LIST_APPEND_is_list [OF "1.prems"(1) p, of "arr ! unat i"]
    obtain s1 where s1: "LIST_APPEND ?p (Inr (arr ! unat i)) s = Inr (length' (sentinal s) + 1, s1)"
      "is_list s1 (as @ [?p])" "entries (heap s1) (as @ [?p]) = entries (heap s) as @ [arr ! unat i]"
      "destructor (sentinal s1) = destructor (sentinal s)" "world s1 = world s"
      "dom (heap s1) = insert ?p (dom (heap s))"
      by blast
    have d: "distinct (drop (unat (i + 1)) (take (unat len) ptrs))"
      using "1.prems"(4) rp by simp
    have fr: "\<forall>p \<in> set (drop (unat (i + 1)) (take (unat len) ptrs)). p \<noteq> 0 \<and> heap s1 p = None"
    proof
      fix q assume q: "q \<in> set (drop (unat (i + 1)) (take (unat len) ptrs))"
      with "1.prems"(4,5) rp have "q \<noteq> ?p" "q \<noteq> 0" "heap s q = None" by auto
      with s1(6) show "q \<noteq> 0 \<and> heap s1 q = None" by (auto simp: domIff)
    qed
    have app: "LIST_APPEND (malloc ptrs (unat i)) (index arr i) s = Inr (length' (sentinal s) + 1, s1)"
      using m ix s1(1) by simp
    from "1.IH" [OF True app, of "as @ [?p]"] s1(2) "1.prems"(2,3) d fr
    obtain s' where s': "new_list_loop ptrs arr len (i + 1) s1 = Inr s'"
      "is_list s' ((as @ [?p]) @ drop (unat (i + 1)) (take (unat len) ptrs))"
      "entries (heap s') ((as @ [?p]) @ drop (unat (i + 1)) (take (unat len) ptrs))
         = entries (heap s1) (as @ [?p]) @ drop (unat (i + 1)) (take (unat len) arr)"
      "destructor (sentinal s') = destructor (sentinal s1)" "world s' = world s1"
      "dom (heap s') = dom (heap s1) \<union> set (drop (unat (i + 1)) (take (unat len) ptrs))"
      by auto
    have "new_list_loop ptrs arr len i s = Inr s'"
      by (subst new_list_loop.simps) (simp add: True m ix s1(1) s'(1))
    with s' s1 show ?thesis
      unfolding rp ra by auto
  qed
qed

subsection \<open>Traversals and walks\<close>

lemma for_each_loop_visit:
  "chain d (heap s) as 0 \<Longrightarrow>
     for_each_loop d (visit g) (hd (as @ [0])) s
       = Some (Inr (s\<lparr>world := fold g (entries (heap s) as) (world s)\<rparr>))"
proof (induction as arbitrary: s)
  case Nil
  then show ?case
    by (subst for_each_loop.simps) (simp add: entries_def)
next
  case (Cons a as)
  from Cons.prems obtain n where n: "a \<noteq> 0" "heap s a = Some n" "lget d n = hd (as @ [0])"
    and c: "chain d (heap s) as 0"
    by (auto split: option.splits)
  let ?s1 = "s\<lparr>world := g (entry n) (world s)\<rparr>"
  have v: "visit g a s = Inr ?s1"
    using n by (simp add: visit_def load_Some)
  have ld: "load (heap ?s1) a = Inr n"
    using n by (simp add: load_Some)
  from c have "chain d (heap ?s1) as 0" by simp
  from Cons.IH [OF this]
  have "for_each_loop d (visit g) (hd (as @ [0])) ?s1
      = Some (Inr (s\<lparr>world := fold g (entries (heap s) (a # as)) (world s)\<rparr>))"
    using n by (simp add: entries_Cons)
  then show ?case
    using n v ld by (subst for_each_loop.simps) simp
qed

lemma is_list_chains:
  assumes "is_list s as"
  shows "chain Next (heap s) as 0" "chain Prev (heap s) (rev as) 0"
    "head (sentinal s) = hd (as @ [0])" "tail (sentinal s) = hd (rev as @ [0])"
    "distinct as" "unat (length' (sentinal s)) = length as"
  using assms by (simp_all add: is_list_def linked_def)

lemma LIST_FOR_EACH_visit:
  assumes "is_list s as"
  shows "LIST_FOR_EACH (visit g) s
       = Some (Inr (s\<lparr>world := fold g (entries (heap s) as) (world s)\<rparr>))"
  unfolding LIST_FOR_EACH_def gen_LIST_FOR_EACH_def sget.simps is_list_chains(3) [OF assms]
  by (rule for_each_loop_visit [OF is_list_chains(1) [OF assms]])

lemma LIST_FOR_EACH_REV_visit:
  assumes "is_list s as"
  shows "LIST_FOR_EACH_REV (visit g) s
       = Some (Inr (s\<lparr>world := fold g (rev (entries (heap s) as)) (world s)\<rparr>))"
  unfolding LIST_FOR_EACH_REV_def gen_LIST_FOR_EACH_def sget.simps is_list_chains(4) [OF assms]
    entries_rev [symmetric]
  by (rule for_each_loop_visit [OF is_list_chains(2) [OF assms]])

lemma walk_chain:
  "chain d h as 0 \<Longrightarrow> walk d h (hd (as @ [0])) = Some (Inr as)"
proof (induction as)
  case Nil
  then show ?case by (subst walk.simps) simp
next
  case (Cons a as)
  from Cons.prems obtain n where n: "a \<noteq> 0" "h a = Some n" "lget d n = hd (as @ [0])"
    and c: "chain d h as 0"
    by (auto split: option.splits)
  from Cons.IH [OF c] n show ?case
    by (subst walk.simps) (simp add: load_Some)
qed

subsection \<open>The constructor\<close>

lemma is_list_empty:
  "is_list \<lparr>sentinal = \<lparr>head = 0, tail = 0, length' = 0, destructor = d\<rparr>, heap = h, world = w\<rparr> []"
  by (simp add: is_list_def linked_def)

lemma new_list_is_list:
  assumes "unat len \<le> length arr" "unat len \<le> length ptrs"
    "distinct (take (unat len) ptrs)" "\<forall>p \<in> set (take (unat len) ptrs). p \<noteq> 0 \<and> h p = None"
  shows "\<exists>s. new_list ptrs (Some arr) len d h w = Inr s
     \<and> is_list s (take (unat len) ptrs)
     \<and> entries (heap s) (take (unat len) ptrs) = take (unat len) arr
     \<and> destructor (sentinal s) = d \<and> world s = w
     \<and> dom (heap s) = dom h \<union> set (take (unat len) ptrs)"
  using new_list_loop_is_list [of "\<lparr>sentinal = \<lparr>head = 0, tail = 0, length' = 0, destructor = d\<rparr>, heap = h, world = w\<rparr>"
      "[]" len arr ptrs 0] assms
  by (simp add: new_list_def is_list_empty entries_def)

subsection \<open>Boundary nodes and neighbours\<close>

lemma is_list_boundary:
  assumes "is_list s as" "as \<noteq> []"
  shows "head (sentinal s) = hd as" "tail (sentinal s) = last as"
  using is_list_chains(3,4) [OF assms(1)] assms(2) by (simp_all add: hd_append hd_rev)

lemma is_list_hd_entry:
  assumes "is_list s as" "as \<noteq> []"
  shows "map_option entry (heap s (head (sentinal s))) = Some (hd (entries (heap s) as))"
proof -
  from is_list_alloc [OF assms(1), of "hd as"] assms(2) obtain n where "heap s (hd as) = Some n"
    by auto
  with assms(2) is_list_boundary(1) [OF assms] show ?thesis
    by (cases as) (simp_all add: entries_def)
qed

lemma is_list_neighbours:
  assumes "is_list s (xs @ e # ys)"
  shows "\<exists>n. heap s e = Some n \<and> next n = hd (ys @ [0]) \<and> prev n = hd (rev xs @ [0])"
    "xs \<noteq> [] \<Longrightarrow> map_option next (heap s (last xs)) = Some e"
    "ys \<noteq> [] \<Longrightarrow> map_option prev (heap s (hd ys)) = Some e"
proof -
  note f = is_list_split [OF assms]
  show "\<exists>n. heap s e = Some n \<and> next n = hd (ys @ [0]) \<and> prev n = hd (rev xs @ [0])"
    by (rule f(6))
  show "map_option next (heap s (last xs)) = Some e" if "xs \<noteq> []"
    using chain_last [OF f(1) that] by auto
  show "map_option prev (heap s (hd ys)) = Some e" if "ys \<noteq> []"
  proof -
    from that have "rev ys \<noteq> []" by simp
    from chain_last [OF f(3) this] that show ?thesis by (auto simp: last_rev)
  qed
qed

lemma example_list_facts:
  "is_list example_list [1, 2, 3]" "entries (heap example_list) [1, 2, 3] = [10, 20, 30]"
  "head (sentinal example_list) = 1" "tail (sentinal example_list) = 3"
  "length' (sentinal example_list) = 3" "world example_list = []"
  "destructor (sentinal example_list) = Some (\<lambda>v log. log @ [v])"
  "heap example_list 5 = None"
  by (simp_all add: example_list_def is_list_def linked_def entries_def)

subsection \<open>Remove, delete and pop on lists\<close>

lemma linked_frame:
  assumes "linked t b d r l h as" "\<And>a. a \<in> set as \<Longrightarrow> h' a = h a"
  shows "linked t b d r l h' as"
proof -
  from assms(1) have c: "chain d h as 0" "chain r h (rev as) 0"
    by (simp_all add: linked_def)
  have "chain d h' as 0"
    using c(1) by (rule chain_frame) (simp add: assms(2))
  moreover have "chain r h' (rev as) 0"
    using c(2) by (rule chain_frame) (simp add: assms(2))
  ultimately show ?thesis using assms(1) by (simp add: linked_def)
qed

lemma unlink_heap_entry:
  assumes "is_list s (xs @ e # ys)"
  shows "map_option entry (unlink_heap (heap s) xs ys a) = map_option entry (heap s a)"
proof -
  note f = is_list_split [OF assms]
  have ax: "xs \<noteq> [] \<Longrightarrow> \<exists>n. heap s (last xs) = Some n"
    using chain_last [OF f(1)] by auto
  have ay: "ys \<noteq> [] \<Longrightarrow> \<exists>n. heap s (hd ys) = Some n"
    using chain_hd [OF f(2)] by auto
  show ?thesis
    by (auto simp: unlink_heap_apply [OF ax ay f(11)] option.map_comp comp_def)
qed

lemma unlink_heap_self:
  assumes "is_list s (xs @ e # ys)"
  shows "unlink_heap (heap s) xs ys e = heap s e"
proof -
  note f = is_list_split [OF assms]
  have ax: "xs \<noteq> [] \<Longrightarrow> \<exists>n. heap s (last xs) = Some n"
    using chain_last [OF f(1)] by auto
  have ay: "ys \<noteq> [] \<Longrightarrow> \<exists>n. heap s (hd ys) = Some n"
    using chain_hd [OF f(2)] by auto
  have "\<not> (ys \<noteq> [] \<and> e = hd ys)" "\<not> (xs \<noteq> [] \<and> e = last xs)"
    using f(9,10) by auto
  then show ?thesis
    by (auto simp: unlink_heap_apply [OF ax ay f(11)])
qed

lemma unlink_heap_other:
  assumes "is_list s (xs @ e # ys)" "a \<notin> set xs" "a \<notin> set ys"
  shows "unlink_heap (heap s) xs ys a = heap s a"
proof -
  note f = is_list_split [OF assms(1)]
  have ax: "xs \<noteq> [] \<Longrightarrow> \<exists>n. heap s (last xs) = Some n"
    using chain_last [OF f(1)] by auto
  have ay: "ys \<noteq> [] \<Longrightarrow> \<exists>n. heap s (hd ys) = Some n"
    using chain_hd [OF f(2)] by auto
  have "\<not> (ys \<noteq> [] \<and> a = hd ys)" "\<not> (xs \<noteq> [] \<and> a = last xs)"
    using assms(2,3) by auto
  then show ?thesis
    by (auto simp: unlink_heap_apply [OF ax ay f(11)])
qed

lemma unlink_heap_entries:
  assumes "is_list s (xs @ e # ys)"
  shows "entries (unlink_heap (heap s) xs ys) as = entries (heap s) as"
  unfolding entries_def
proof (rule map_cong [OF refl])
  fix a
  from unlink_heap_entry [OF assms, of a]
  show "entry (the (unlink_heap (heap s) xs ys a)) = entry (the (heap s a))"
    by (cases "heap s a"; cases "unlink_heap (heap s) xs ys a") simp_all
qed

text \<open>The state after removing the node between \<open>xs\<close> and \<open>ys\<close>.\<close>

lemma LIST_REMOVE_is_list:
  assumes "is_list s (xs @ e # ys)"
  shows "\<exists>s'. LIST_REMOVE (ptr e) s = Inr (length' (sentinal s), s')
     \<and> is_list s' (xs @ ys) \<and> entries (heap s') (xs @ ys) = entries (heap s) (xs @ ys)
     \<and> heap s' e = heap s e
     \<and> length' (sentinal s') = length' (sentinal s) - 1
     \<and> destructor (sentinal s') = destructor (sentinal s) \<and> world s' = world s
     \<and> heap s' = unlink_heap (heap s) xs ys"
proof -
  let ?s' = "s\<lparr>sentinal := (sentinal s)\<lparr>head := hd (xs @ ys @ [0]), tail := hd (rev ys @ rev xs @ [0]),
                                     length' := length' (sentinal s) - 1\<rparr>,
            heap := unlink_heap (heap s) xs ys\<rparr>"
  have "LIST_REMOVE (ptr e) s = Inr (length' (sentinal s), ?s')"
    by (rule LIST_REMOVE_eq [OF assms])
  moreover have "is_list ?s' (xs @ ys)"
    using unlink_heap_linked [OF assms] by (simp add: is_list_def)
  moreover have "entries (heap ?s') (xs @ ys) = entries (heap s) (xs @ ys)"
    by (simp add: unlink_heap_entries [OF assms])
  moreover have "heap ?s' e = heap s e"
    by (simp add: unlink_heap_self [OF assms])
  moreover have "length' (sentinal ?s') = length' (sentinal s) - 1"
    "destructor (sentinal ?s') = destructor (sentinal s)" "world ?s' = world s"
    "heap ?s' = unlink_heap (heap s) xs ys"
    by simp_all
  ultimately show ?thesis by blast
qed

lemma is_list_world [simp]: "is_list (s\<lparr>world := w\<rparr>) as = is_list s as"
  by (simp add: is_list_def)

lemma LIST_DEL_is_list:
  assumes "is_list s (xs @ e # ys)"
  shows "\<exists>s'. LIST_DEL (ptr e) s = Inr s'
     \<and> is_list s' (xs @ ys) \<and> entries (heap s') (xs @ ys) = entries (heap s) (xs @ ys)
     \<and> length' (sentinal s') = length' (sentinal s) - 1
     \<and> destructor (sentinal s') = destructor (sentinal s)
     \<and> world s' = (case destructor (sentinal s) of None \<Rightarrow> world s
                    | Some d \<Rightarrow> d (entry (the (heap s e))) (world s))
     \<and> heap s' = (unlink_heap (heap s) xs ys)(e := None)"
proof -
  note f = is_list_split [OF assms]
  from f(6) obtain n where n: "heap s e = Some n" by auto
  from LIST_REMOVE_is_list [OF assms]
  obtain s1 where s1: "LIST_REMOVE (ptr e) s = Inr (length' (sentinal s), s1)"
    "is_list s1 (xs @ ys)" "entries (heap s1) (xs @ ys) = entries (heap s) (xs @ ys)"
    "heap s1 e = heap s e" "length' (sentinal s1) = length' (sentinal s) - 1"
    "destructor (sentinal s1) = destructor (sentinal s)" "world s1 = world s"
    "heap s1 = unlink_heap (heap s) xs ys"
    by blast
  define w where "w = (case destructor (sentinal s) of None \<Rightarrow> world s
                    | Some d \<Rightarrow> d (entry (the (heap s e))) (world s))"
  let ?s' = "s1\<lparr>world := w, heap := (heap s1)(e := None)\<rparr>"
  have ld: "load (heap s1) e = Inr n"
    using f(5) n s1(4) by (simp add: load_Some)
  have fr: "free e (heap s1) = Inr ((heap s1)(e := None))"
    using f(5) n s1(4) by (simp add: free_def)
  have d: "(case destructor (sentinal s1) of None \<Rightarrow> Inr s1
            | Some d \<Rightarrow> fbind (load (heap s1) e) (\<lambda>n. Inr (s1\<lparr>world := d (entry n) (world s1)\<rparr>)))
     = Inr (s1\<lparr>world := w\<rparr>)"
    using ld n s1(6,7) by (simp add: w_def split: option.splits)
  have "LIST_DEL (ptr e) s = Inr ?s'"
    unfolding LIST_DEL_ptr s1(1) fbind_simps prod.case d
    by (simp add: fr)
  moreover have "is_list ?s' (xs @ ys)"
  proof -
    have "linked Tail Head Next Prev (sentinal s1) ((heap s1)(e := None)) (xs @ ys)"
      using s1(2) [unfolded is_list_def]
      by (rule linked_frame) (use f(9,10) in auto)
    then show ?thesis by (simp add: is_list_def)
  qed
  moreover have "entries (heap ?s') (xs @ ys) = entries (heap s) (xs @ ys)"
    using f(9,10) s1(3) by (auto simp: entries_def)
  moreover have "length' (sentinal ?s') = length' (sentinal s) - 1"
    "destructor (sentinal ?s') = destructor (sentinal s)" "world ?s' = w"
    "heap ?s' = (unlink_heap (heap s) xs ys)(e := None)"
    using s1 by simp_all
  ultimately show ?thesis unfolding w_def by blast
qed

lemma gen_LIST_POP_is_list:
  assumes "is_list s (xs @ e # ys)" "sget f (sentinal s) = e"
  shows "\<exists>s'. gen_LIST_POP f s = Inr (entry (the (heap s e)), s')
     \<and> is_list s' (xs @ ys) \<and> entries (heap s') (xs @ ys) = entries (heap s) (xs @ ys)
     \<and> length' (sentinal s') = length' (sentinal s) - 1
     \<and> destructor (sentinal s') = destructor (sentinal s) \<and> world s' = world s
     \<and> heap s' = (unlink_heap (heap s) xs ys)(e := None)"
proof -
  note f = is_list_split [OF assms(1)]
  from f(6) obtain n where n: "heap s e = Some n" by auto
  from LIST_REMOVE_is_list [OF assms(1)]
  obtain s1 where s1: "LIST_REMOVE (ptr e) s = Inr (length' (sentinal s), s1)"
    "is_list s1 (xs @ ys)" "entries (heap s1) (xs @ ys) = entries (heap s) (xs @ ys)"
    "heap s1 e = heap s e" "length' (sentinal s1) = length' (sentinal s) - 1"
    "destructor (sentinal s1) = destructor (sentinal s)" "world s1 = world s"
    "heap s1 = unlink_heap (heap s) xs ys"
    by blast
  let ?s' = "s1\<lparr>heap := (heap s1)(e := None)\<rparr>"
  have ld: "load (heap s1) e = Inr n"
    using f(5) n s1(4) by (simp add: load_Some)
  have fr: "free e (heap s1) = Inr ((heap s1)(e := None))"
    using f(5) n s1(4) by (simp add: free_def)
  have "gen_LIST_POP f s = Inr (entry (the (heap s e)), ?s')"
    unfolding gen_LIST_POP_def assms(2) Let_def s1(1) fbind_simps prod.case ld fr
    by (simp add: n)
  moreover have "is_list ?s' (xs @ ys)"
  proof -
    have "linked Tail Head Next Prev (sentinal s1) ((heap s1)(e := None)) (xs @ ys)"
      using s1(2) [unfolded is_list_def]
      by (rule linked_frame) (use f(9,10) in auto)
    then show ?thesis by (simp add: is_list_def)
  qed
  moreover have "entries (heap ?s') (xs @ ys) = entries (heap s) (xs @ ys)"
    using f(9,10) s1(3) by (auto simp: entries_def)
  moreover have "length' (sentinal ?s') = length' (sentinal s) - 1"
    "destructor (sentinal ?s') = destructor (sentinal s)" "world ?s' = world s"
    "heap ?s' = (unlink_heap (heap s) xs ys)(e := None)"
    using s1 by simp_all
  ultimately show ?thesis by blast
qed

subsection \<open>Destroying a list\<close>

lemma is_list_Nil:
  "is_list s [] \<longleftrightarrow> head (sentinal s) = 0 \<and> tail (sentinal s) = 0 \<and> length' (sentinal s) = 0"
  by (auto simp: is_list_def linked_def unat_eq_0)

lemma LIST_DEL_eq:
  assumes "is_list s (xs @ e # ys)"
  shows "LIST_DEL (ptr e) s =
     Inr (s\<lparr>sentinal := (sentinal s)\<lparr>head := hd (xs @ ys @ [0]), tail := hd (rev ys @ rev xs @ [0]),
                                     length' := length' (sentinal s) - 1\<rparr>,
            heap := (unlink_heap (heap s) xs ys)(e := None),
            world := (case destructor (sentinal s) of None \<Rightarrow> world s
                      | Some d \<Rightarrow> d (entry (the (heap s e))) (world s))\<rparr>)"
proof -
  note f = is_list_split [OF assms]
  from f(6) obtain n where n: "heap s e = Some n" by auto
  have u: "unlink_heap (heap s) xs ys e = Some n"
    using unlink_heap_self [OF assms] n by simp
  with f(5) have ld: "load (unlink_heap (heap s) xs ys) e = Inr n"
    by (rule load_Some)
  have fr: "free e (unlink_heap (heap s) xs ys) = Inr ((unlink_heap (heap s) xs ys)(e := None))"
    using f(5) u by (simp add: free_def)
  show ?thesis
    unfolding LIST_DEL_ptr LIST_REMOVE_eq [OF assms] fbind_simps prod.case
    by (cases "destructor (sentinal s)") (simp_all add: ld fr n)
qed

text \<open>The state the destroying traversal ends in.\<close>

lemma destroy_loop:
  "is_list s as \<Longrightarrow>
     for_each_safe_loop Next (\<lambda>v. LIST_DEL (ptr v)) (hd (as @ [0])) (hd (tl as @ [0])) s
       = Some (Inr (s\<lparr>sentinal := (sentinal s)\<lparr>head := 0, tail := 0, length' := 0\<rparr>,
                      heap := (\<lambda>a. if a \<in> set as then None else heap s a),
                      world := (case destructor (sentinal s) of None \<Rightarrow> world s
                                | Some d \<Rightarrow> fold d (entries (heap s) as) (world s))\<rparr>))"
proof (induction as arbitrary: s)
  case Nil
  then have "head (sentinal s) = 0" "tail (sentinal s) = 0" "length' (sentinal s) = 0"
    by (simp_all add: is_list_Nil)
  then have "s\<lparr>sentinal := (sentinal s)\<lparr>head := 0, tail := 0, length' := 0\<rparr>,
                      heap := (\<lambda>a. if a \<in> set [] then None else heap s a),
                      world := (case destructor (sentinal s) of None \<Rightarrow> world s
                                | Some d \<Rightarrow> fold d (entries (heap s) []) (world s))\<rparr> = s"
    by (simp add: entries_def split: option.splits)
  then show ?case
    by (subst for_each_safe_loop.simps) simp
next
  case (Cons a as)
  from Cons.prems have l: "is_list s ([] @ a # as)" by simp
  note f = is_list_split [OF l]
  define s1 where "s1 = s\<lparr>sentinal := (sentinal s)\<lparr>head := hd ([] @ as @ [0]), tail := hd (rev as @ rev [] @ [0]),
                                     length' := length' (sentinal s) - 1\<rparr>,
            heap := (unlink_heap (heap s) [] as)(a := None),
            world := (case destructor (sentinal s) of None \<Rightarrow> world s
                      | Some d \<Rightarrow> d (entry (the (heap s a))) (world s))\<rparr>"
  have del: "LIST_DEL (ptr a) s = Inr s1"
    unfolding s1_def by (rule LIST_DEL_eq [OF l])
  from LIST_DEL_is_list [OF l] del have l1: "is_list s1 as" and e1: "entries (heap s1) as = entries (heap s) as"
    by auto
  have rest: "for_each_safe_loop Next (\<lambda>v. LIST_DEL (ptr v)) (hd (as @ [0])) (hd (tl as @ [0])) s1
       = Some (Inr (s1\<lparr>sentinal := (sentinal s1)\<lparr>head := 0, tail := 0, length' := 0\<rparr>,
                      heap := (\<lambda>a. if a \<in> set as then None else heap s1 a),
                      world := (case destructor (sentinal s1) of None \<Rightarrow> world s1
                                | Some d \<Rightarrow> fold d (entries (heap s1) as) (world s1))\<rparr>))"
    by (rule Cons.IH [OF l1])
  have h: "(\<lambda>x. if x \<in> set as then None else heap s1 x)
      = (\<lambda>x. if x \<in> set (a # as) then None else heap s x)"
  proof (rule ext)
    fix x
    show "(if x \<in> set as then None else heap s1 x)
        = (if x \<in> set (a # as) then None else heap s x)"
      using unlink_heap_other [OF l, of x] by (simp add: s1_def)
  qed
  have w: "(case destructor (sentinal s1) of None \<Rightarrow> world s1
                              | Some d \<Rightarrow> fold d (entries (heap s1) as) (world s1))
      = (case destructor (sentinal s) of None \<Rightarrow> world s
                              | Some d \<Rightarrow> fold d (entries (heap s) (a # as)) (world s))"
    unfolding e1 by (simp add: s1_def entries_Cons split: option.splits)
  have fin: "s1\<lparr>sentinal := (sentinal s1)\<lparr>head := 0, tail := 0, length' := 0\<rparr>,
                      heap := (\<lambda>a. if a \<in> set as then None else heap s1 a),
                      world := (case destructor (sentinal s1) of None \<Rightarrow> world s1
                                | Some d \<Rightarrow> fold d (entries (heap s1) as) (world s1))\<rparr>
     = s\<lparr>sentinal := (sentinal s)\<lparr>head := 0, tail := 0, length' := 0\<rparr>,
                      heap := (\<lambda>x. if x \<in> set (a # as) then None else heap s x),
                      world := (case destructor (sentinal s) of None \<Rightarrow> world s
                                | Some d \<Rightarrow> fold d (entries (heap s) (a # as)) (world s))\<rparr>"
    unfolding h w by (simp add: s1_def)
  have a0: "a \<noteq> 0" by (rule f(5))
  have step: "for_each_safe_loop Next (\<lambda>v. LIST_DEL (ptr v)) a (hd (as @ [0])) s
      = for_each_safe_loop Next (\<lambda>v. LIST_DEL (ptr v)) (hd (as @ [0])) (hd (tl as @ [0])) s1"
  proof (cases "as = []")
    case True
    with a0 del show ?thesis
      by (subst for_each_safe_loop.simps) simp
  next
    case False
    from chain_hd [OF is_list_chains(1) [OF l1] False]
    obtain n where n: "hd as \<noteq> 0" "heap s1 (hd as) = Some n" "lget Next n = hd (tl as @ [0])"
      by auto
    from n(1,2) have "load (heap s1) (hd as) = Inr n" by (rule load_Some)
    with a0 del False n show ?thesis
      by (subst for_each_safe_loop.simps) (simp add: hd_append)
  qed
  show ?case
    using step rest fin by simp
qed

lemma LIST_DESTROY_eq:
  assumes "is_list s as"
  shows "LIST_DESTROY s
       = Some (Inr (s\<lparr>sentinal := (sentinal s)\<lparr>head := 0, tail := 0, length' := 0\<rparr>,
                      heap := (\<lambda>a. if a \<in> set as then None else heap s a),
                      world := (case destructor (sentinal s) of None \<Rightarrow> world s
                                | Some d \<Rightarrow> fold d (entries (heap s) as) (world s))\<rparr>))"
proof -
  have "LIST_DESTROY s = for_each_safe_loop Next (\<lambda>v. LIST_DEL (ptr v)) (hd (as @ [0])) (hd (tl as @ [0])) s"
  proof (cases "as = []")
    case True
    with is_list_chains(3) [OF assms] show ?thesis
      by (simp add: LIST_DESTROY_def LIST_FOR_EACH_SAFE_def gen_LIST_FOR_EACH_SAFE_def)
  next
    case False
    from chain_hd [OF is_list_chains(1) [OF assms] False]
    obtain n where n: "hd as \<noteq> 0" "heap s (hd as) = Some n" "lget Next n = hd (tl as @ [0])"
      by auto
    from n(1,2) have "load (heap s) (hd as) = Inr n" by (rule load_Some)
    with is_list_chains(3) [OF assms] False n show ?thesis
      by (simp add: LIST_DESTROY_def LIST_FOR_EACH_SAFE_def gen_LIST_FOR_EACH_SAFE_def hd_append)
  qed
  then show ?thesis by (simp only: destroy_loop [OF assms])
qed

lemma gen_LIST_POP_null: "sget f (sentinal s) = 0 \<Longrightarrow> gen_LIST_POP f s = Inl NullDeref"
  by (simp add: gen_LIST_POP_def LIST_REMOVE_ptr load_def)

subsection \<open>Nodes that are not members\<close>

lemma is_list_boundary_mem:
  assumes "is_list s as"
  shows "head (sentinal s) = 0 \<or> head (sentinal s) \<in> set as"
    "tail (sentinal s) = 0 \<or> tail (sentinal s) \<in> set as"
  using is_list_chains(3,4) [OF assms] by (cases "as = []"; simp add: hd_append hd_rev)+

lemma store_None: "p \<noteq> 0 \<Longrightarrow> h p = None \<Longrightarrow> store h p f = Inl InvalidDeref"
  by (simp add: store_def load_def)

lemma set_link_Some:
  "p \<noteq> 0 \<Longrightarrow> h p = Some m \<Longrightarrow> store h p (lput d q) = Inr (set_link d p q h)"
  by (simp add: store_Some set_link_def)

lemma set_link_dom: "p = 0 \<or> h p \<noteq> None \<Longrightarrow> dom (set_link d p q h) = dom h"
  by (auto simp: set_link_def)

lemma set_link_node:
  assumes "p = 0 \<or> h p \<noteq> None" "h e = Some n" "e \<noteq> 0"
  shows "\<exists>n'. set_link d p q h e = Some n' \<and> entry n' = entry n
     \<and> lget d n' = (if p = e then q else lget d n)
     \<and> (\<forall>r. r \<noteq> d \<longrightarrow> lget r n' = lget r n)"
  using assms by (cases "p = e") (auto simp: set_link_def lget_lput)

text \<open>Removing a node that is neither head nor tail, whatever it is linked to.\<close>

lemma LIST_REMOVE_nonmember:
  assumes e: "e \<noteq> 0" "heap s e = Some n"
    and pv: "prev n = 0 \<or> heap s (prev n) \<noteq> None"
    and nx: "next n = 0 \<or> heap s (next n) \<noteq> None"
    and b: "e \<noteq> head (sentinal s)" "e \<noteq> tail (sentinal s)"
  shows "LIST_REMOVE (ptr e) s
        = Inr (length' (sentinal s),
               s\<lparr>sentinal := (sentinal s)\<lparr>length' := length' (sentinal s) - 1\<rparr>,
                 heap := set_link Prev (next n) (prev n) (set_link Next (prev n) (next n) (heap s))\<rparr>)"
    and "\<exists>n2. set_link Prev (next n) (prev n) (set_link Next (prev n) (next n) (heap s)) e = Some n2
          \<and> entry n2 = entry n"
proof -
  define h1 where "h1 = set_link Next (prev n) (next n) (heap s)"
  define h2 where "h2 = set_link Prev (next n) (prev n) h1"
  have 0: "load (heap s) e = Inr n" using e by (rule load_Some)
  have s1: "(if prev n \<noteq> 0 then store (heap s) (prev n) (lput Next (next n))
      else Inr (heap s)) = Inr h1"
  proof (cases "prev n = 0")
    case True
    then show ?thesis by (simp add: h1_def set_link_def)
  next
    case False
    with pv obtain m where "heap s (prev n) = Some m" by auto
    with False show ?thesis by (simp add: h1_def set_link_Some)
  qed
  from set_link_node [of "prev n" "heap s" e n Next "next n", OF pv e(2,1)]
  obtain n1 where n1: "h1 e = Some n1" "entry n1 = entry n" "next n1 = next n" "prev n1 = prev n"
    unfolding h1_def by (cases "prev n = e") auto
  have 1: "load h1 e = Inr n1" using e(1) n1(1) by (rule load_Some)
  have d1: "dom h1 = dom (heap s)" unfolding h1_def by (rule set_link_dom [of "prev n" "heap s", OF pv])
  from nx d1 have nx1: "next n = 0 \<or> h1 (next n) \<noteq> None" by (auto simp: domIff)
  have s2: "(if next n1 \<noteq> 0 then store h1 (next n1) (lput Prev (prev n1)) else Inr h1) = Inr h2"
  proof (cases "next n = 0")
    case True
    with n1 show ?thesis by (simp add: h2_def set_link_def)
  next
    case False
    with nx1 obtain m where "h1 (next n) = Some m" by auto
    with False n1 show ?thesis by (simp add: h2_def set_link_Some)
  qed
  from set_link_node [of "next n" h1 e n1 Prev "prev n", OF nx1 n1(1) e(1)] n1(2)
  show "\<exists>n2. set_link Prev (next n) (prev n) (set_link Next (prev n) (next n) (heap s)) e = Some n2
          \<and> entry n2 = entry n"
    unfolding h1_def by auto
  have 3: "(if e = head (sentinal s)
            then fbind (load h2 (head (sentinal s))) (\<lambda>n. Inr ((sentinal s)\<lparr>head := next n\<rparr>))
            else Inr (sentinal s)) = Inr (sentinal s)"
    using b(1) by simp
  have 4: "(if e = tail (sentinal s)
            then fbind (load h2 (tail (sentinal s))) (\<lambda>n. Inr ((sentinal s)\<lparr>tail := prev n\<rparr>))
            else Inr (sentinal s)) = Inr (sentinal s)"
    using b(2) by simp
  have "LIST_REMOVE (ptr e) s
        = Inr (length' (sentinal s),
               s\<lparr>sentinal := (sentinal s)\<lparr>length' := length' (sentinal s) - 1\<rparr>, heap := h2\<rparr>)"
    unfolding LIST_REMOVE_ptr
    by (simp only: 0 s1 1 s2 3 4 fbind_simps Let_def)
  then show "LIST_REMOVE (ptr e) s
        = Inr (length' (sentinal s),
               s\<lparr>sentinal := (sentinal s)\<lparr>length' := length' (sentinal s) - 1\<rparr>,
                 heap := set_link Prev (next n) (prev n) (set_link Next (prev n) (next n) (heap s))\<rparr>)"
    by (simp add: h2_def h1_def)
qed

lemma LIST_REMOVE_bad_neighbour:
  assumes e: "e \<noteq> 0" "heap s e = Some n"
    and bad: "(prev n \<noteq> 0 \<and> heap s (prev n) = None) \<or> (next n \<noteq> 0 \<and> heap s (next n) = None)"
  shows "LIST_REMOVE (ptr e) s = Inl InvalidDeref"
proof -
  have 0: "load (heap s) e = Inr n" using e by (rule load_Some)
  show ?thesis
  proof (cases "prev n \<noteq> 0 \<and> heap s (prev n) = None")
    case True
    then have "store (heap s) (prev n) (lput Next (next n)) = Inl InvalidDeref"
      by (simp add: store_None)
    with True show ?thesis
      unfolding LIST_REMOVE_ptr by (simp add: 0)
  next
    case False
    with bad have nb: "next n \<noteq> 0" "heap s (next n) = None" and pv: "prev n = 0 \<or> heap s (prev n) \<noteq> None"
      by auto
    define h1 where "h1 = set_link Next (prev n) (next n) (heap s)"
    have s1: "(if prev n \<noteq> 0 then store (heap s) (prev n) (lput Next (next n))
        else Inr (heap s)) = Inr h1"
    proof (cases "prev n = 0")
      case True
      then show ?thesis by (simp add: h1_def set_link_def)
    next
      case False
      with pv obtain m where "heap s (prev n) = Some m" by auto
      with False show ?thesis by (simp add: h1_def set_link_Some)
    qed
    from set_link_node [of "prev n" "heap s" e n Next "next n", OF pv e(2,1)]
    obtain n1 where n1: "h1 e = Some n1" "next n1 = next n" "prev n1 = prev n"
      unfolding h1_def by (cases "prev n = e") auto
    have 1: "load h1 e = Inr n1" using e(1) n1(1) by (rule load_Some)
    have "dom h1 = dom (heap s)" unfolding h1_def by (rule set_link_dom [of "prev n" "heap s", OF pv])
    with nb(2) have "h1 (next n) = None" by (auto simp: domIff)
    with nb(1) have "store h1 (next n) (lput Prev (prev n)) = Inl InvalidDeref"
      by (simp add: store_None)
    with nb(1) n1 have s2: "(if next n1 \<noteq> 0 then store h1 (next n1) (lput Prev (prev n1)) else Inr h1)
        = Inl InvalidDeref"
      by simp
    show ?thesis
      unfolding LIST_REMOVE_ptr
      by (simp only: 0 s1 1 s2 fbind_simps)
  qed
qed

lemma LIST_REMOVE_bad_node:
  "LIST_REMOVE (ptr 0) s = Inl NullDeref"
  "e \<noteq> 0 \<Longrightarrow> heap s e = None \<Longrightarrow> LIST_REMOVE (ptr e) s = Inl InvalidDeref"
  unfolding LIST_REMOVE_ptr by (simp_all add: load_def)

lemma LIST_DEL_fault: "LIST_REMOVE (ptr e) s = Inl f \<Longrightarrow> LIST_DEL (ptr e) s = Inl f"
  unfolding LIST_DEL_ptr by simp

lemma two_lists_facts:
  "is_list two_lists [1, 2, 3]"
  "heap two_lists 5 = Some \<lparr>next = 6, prev = 4, entry = 50\<rparr>"
  "heap two_lists 7 = Some \<lparr>next = 0, prev = 9, entry = 70\<rparr>"
  "heap two_lists 8 = None" "heap two_lists 9 = None"
  "heap two_lists 4 = Some \<lparr>next = 5, prev = 0, entry = 40\<rparr>"
  "heap two_lists 6 = Some \<lparr>next = 0, prev = 5, entry = 60\<rparr>"
  "head (sentinal two_lists) = 1" "tail (sentinal two_lists) = 3"
  "length' (sentinal two_lists) = 3" "world two_lists = []"
  "destructor (sentinal two_lists) = Some (\<lambda>v log. log @ [v])"
  by (simp_all add: two_lists_def is_list_def linked_def)

subsection \<open>Reachable states\<close>

lemma is_list_invariant:
  assumes "is_list s as"
  shows "list_invariant s"
proof -
  note c = is_list_chains [OF assms]
  have z: "0 \<notin> set as" using c(1) by (rule chain_nonnull)
  have h: "head (sentinal s) = 0 \<longleftrightarrow> as = []"
    using c(3) z by (cases as) auto
  have t: "tail (sentinal s) = 0 \<longleftrightarrow> as = []"
  proof (cases "as = []")
    case True
    with c(4) show ?thesis by simp
  next
    case False
    then have "last as \<in> set as" by simp
    with z have "last as \<noteq> 0" by metis
    with c(4) False show ?thesis by (simp add: hd_append hd_rev)
  qed
  have l: "length' (sentinal s) = 0 \<longleftrightarrow> as = []"
    using c(6) by (auto simp: unat_eq_0)
  have o: "length' (sentinal s) = 1 \<longrightarrow> head (sentinal s) = tail (sentinal s)"
  proof
    assume "length' (sentinal s) = 1"
    with c(6) have "length as = 1" by simp
    then obtain a where "as = [a]" by (cases as) auto
    with c(3,4) show "head (sentinal s) = tail (sentinal s)" by simp
  qed
  have fw: "walk Next (heap s) (head (sentinal s)) = Some (Inr as)"
    unfolding c(3) by (rule walk_chain [OF c(1)])
  have bw: "walk Prev (heap s) (tail (sentinal s)) = Some (Inr (rev as))"
    unfolding c(4) by (rule walk_chain [OF c(2)])
  show ?thesis
    unfolding list_invariant_def fw bw using h t l o c(6) by simp
qed

lemma is_list_member: "is_list s as \<Longrightarrow> member s elem \<longleftrightarrow> elem \<in> set as"
  unfolding member_def
  using walk_chain [OF is_list_chains(1), of s as] is_list_chains(3) [of s as]
  by simp

lemma LIST_APPEND_nonnull: "LIST_APPEND p elem s = Inr r \<Longrightarrow> p \<noteq> 0 \<and> (\<exists>v. elem = Inr v)"
  by (cases elem) (auto simp: LIST_APPEND_def gen_LIST_ADD_def split: if_splits)

lemma LIST_PREPEND_nonnull: "LIST_PREPEND p elem s = Inr r \<Longrightarrow> p \<noteq> 0 \<and> (\<exists>v. elem = Inr v)"
  by (cases elem) (auto simp: LIST_PREPEND_def gen_LIST_ADD_def split: if_splits)

lemma malloc_nonnull: "malloc ptrs k \<noteq> 0 \<Longrightarrow> k < length ptrs \<and> malloc ptrs k = ptrs ! k"
  by (auto simp: malloc_def split: if_splits)

lemma new_list_loop_reach:
  assumes "new_list_loop ptrs arr len i s = Inr s'" "is_list s as"
    "distinct (drop (unat i) ptrs)" "\<forall>p \<in> set (drop (unat i) ptrs). p = 0 \<or> heap s p = None"
  shows "\<exists>as'. is_list s' as'"
  using assms
proof (induction ptrs arr len i s arbitrary: as rule: new_list_loop.induct)
  case (1 ptrs arr len i s)
  show ?case
  proof (cases "i < len")
    case False
    with "1.prems"(1) have "s' = s" by (subst (asm) new_list_loop.simps) simp
    with "1.prems"(2) show ?thesis by blast
  next
    case True
    note u = unat_succ_less [OF True]
    from "1.prems"(1) True obtain r where
      r: "LIST_APPEND (malloc ptrs (unat i)) (index arr i) s = Inr r"
      and rest: "new_list_loop ptrs arr len (i + 1) (snd r) = Inr s'"
      by (subst (asm) new_list_loop.simps) (auto split: sum.splits)
    from LIST_APPEND_nonnull [OF r] obtain v where
      p0: "malloc ptrs (unat i) \<noteq> 0" and v: "index arr i = Inr v" by blast
    let ?p = "ptrs ! unat i"
    from malloc_nonnull [OF p0] have k: "unat i < length ptrs" and m: "malloc ptrs (unat i) = ?p"
      by simp_all
    from k have dr: "drop (unat i) ptrs = ?p # drop (unat (i + 1)) ptrs"
      by (simp add: u Cons_nth_drop_Suc)
    from p0 m "1.prems"(4) dr have p: "?p \<noteq> 0" "heap s ?p = None" by auto
    from LIST_APPEND_is_list [OF "1.prems"(2) p, of v]
    obtain s1 where s1: "LIST_APPEND ?p (Inr v) s = Inr (length' (sentinal s) + 1, s1)"
      "is_list s1 (as @ [?p])" "dom (heap s1) = insert ?p (dom (heap s))"
      by blast
    from s1(1) r m v have "snd r = s1" by auto
    with s1 have l1: "is_list (snd r) (as @ [?p])"
      and d1: "dom (heap (snd r)) = insert ?p (dom (heap s))"
      by simp_all
    have d: "distinct (drop (unat (i + 1)) ptrs)"
      using "1.prems"(3) dr by simp
    have fr: "\<forall>q \<in> set (drop (unat (i + 1)) ptrs). q = 0 \<or> heap (snd r) q = None"
    proof
      fix q assume q: "q \<in> set (drop (unat (i + 1)) ptrs)"
      with "1.prems"(3,4) dr have "q \<noteq> ?p" "q = 0 \<or> heap s q = None" by auto
      with d1 show "q = 0 \<or> heap (snd r) q = None" by (auto simp: domIff)
    qed
    show ?thesis
      by (rule "1.IH" [OF True r rest l1 d fr])
  qed
qed

lemma reachable_is_list: "reachable_in_contract s \<Longrightarrow> \<exists>as. is_list s as"
proof (induction rule: reachable_in_contract.induct)
  case (construct ptrs h initializer len d w s)
  show ?case
  proof (cases initializer)
    case None
    with construct(3) show ?thesis
      by (auto simp: new_list_def intro: is_list_empty)
  next
    case (Some arr)
    let ?data = "\<lparr>sentinal = \<lparr>head = 0, tail = 0, length' = 0, destructor = d\<rparr>, heap = h, world = w\<rparr>"
    from Some construct(3) have "new_list_loop ptrs arr len 0 ?data = Inr s"
      by (simp add: new_list_def)
    then show ?thesis
      by (rule new_list_loop_reach [where as = "[]"]) (use construct(1,2) in \<open>simp_all add: is_list_empty\<close>)
  qed
next
  case (append s p v n s')
  then obtain as where as: "is_list s as" by blast
  from LIST_APPEND_nonnull [OF append(3)] append(2) have p: "p \<noteq> 0" "heap s p = None" by auto
  from LIST_APPEND_is_list [OF as p, of v] append(3) show ?case by auto
next
  case (prepend s p v n s')
  then obtain as where as: "is_list s as" by blast
  from LIST_PREPEND_nonnull [OF prepend(3)] prepend(2) have p: "p \<noteq> 0" "heap s p = None" by auto
  from LIST_PREPEND_is_list [OF as p, of v] prepend(3) show ?case by auto
next
  case (remove s elem n s')
  then obtain as where as: "is_list s as" by blast
  with remove(2) have "elem \<in> set as" by (simp add: is_list_member)
  then obtain xs ys where "as = xs @ elem # ys" by (auto dest: split_list)
  with as have "is_list s (xs @ elem # ys)" by simp
  from LIST_REMOVE_is_list [OF this] remove(3) show ?case by auto
next
  case (delete s elem s')
  then obtain as where as: "is_list s as" by blast
  with delete(2) have "elem \<in> set as" by (simp add: is_list_member)
  then obtain xs ys where "as = xs @ elem # ys" by (auto dest: split_list)
  with as have "is_list s (xs @ elem # ys)" by simp
  from LIST_DEL_is_list [OF this] delete(3) show ?case by auto
next
  case (popf s v s')
  then obtain as where as: "is_list s as" by blast
  show ?case
  proof (cases "as = []")
    case True
    with as have "head (sentinal s) = 0" by (simp add: is_list_Nil)
    then have "LIST_POPF s = Inl NullDeref"
      by (simp add: LIST_POPF_def gen_LIST_POP_null)
    with popf(2) show ?thesis by simp
  next
    case False
    with as have l: "is_list s ([] @ hd as # tl as)" by simp
    from gen_LIST_POP_is_list [OF l, of Head] is_list_boundary(1) [OF as False] popf(2)
    show ?thesis unfolding LIST_POPF_def by auto
  qed
next
  case (popb s v s')
  then obtain as where as: "is_list s as" by blast
  show ?case
  proof (cases "as = []")
    case True
    with as have "tail (sentinal s) = 0" by (simp add: is_list_Nil)
    then have "LIST_POPB s = Inl NullDeref"
      by (simp add: LIST_POPB_def gen_LIST_POP_null)
    with popb(2) show ?thesis by simp
  next
    case False
    with as have l: "is_list s (butlast as @ last as # [])" by simp
    from gen_LIST_POP_is_list [OF l, of Tail] is_list_boundary(2) [OF as False] popb(2)
    show ?thesis unfolding LIST_POPB_def by auto
  qed
next
  case (destroy s s')
  then obtain as where as: "is_list s as" by blast
  from destroy(2) have "is_list s' []"
    unfolding LIST_DESTROY_eq [OF as] by (auto simp: is_list_Nil)
  then show ?case by blast
qed

subsection \<open>Calls on the example states\<close>

lemma new_list_two_nodes:
  "new_list [1, 2] (Some [10, 20]) 2 (destructor (sentinal two_nodes)) Map.empty [] = Inr two_nodes"
  by (simp add: new_list_def new_list_loop.simps LIST_APPEND_def gen_LIST_ADD_def malloc_def
      index_def store_def load_def two_nodes_def fun_upd_twist)

lemma new_list_example_list:
  "new_list [1, 2, 3] (Some [10, 20, 30]) 3 (destructor (sentinal example_list))
     [4 \<mapsto> \<lparr>next = 0, prev = 0, entry = 40\<rparr>] [] = Inr example_list"
  by (simp add: new_list_def new_list_loop.simps LIST_APPEND_def gen_LIST_ADD_def malloc_def
      index_def store_def load_def example_list_def fun_upd_twist)

lemma LIST_REMOVE_head_two_nodes:
  "LIST_REMOVE list_head two_nodes
     = Inr (2, two_nodes\<lparr>sentinal := (sentinal two_nodes)\<lparr>head := 2, tail := 0, length' := 1\<rparr>,
                        heap := (heap two_nodes)(2 \<mapsto> \<lparr>next = 0, prev = 0, entry = 20\<rparr>)\<rparr>)"
  by (simp add: LIST_REMOVE_def list_head_def two_nodes_def load_def store_def)

lemma LIST_DEL_head_example_list:
  "LIST_DEL list_head example_list
     = Inr (example_list\<lparr>sentinal := (sentinal example_list)\<lparr>head := 2, length' := 2\<rparr>,
                         heap := (heap example_list)(2 := None), world := [20]\<rparr>)"
  by (simp add: LIST_DEL_def LIST_REMOVE_def list_head_def example_list_def load_def store_def free_def)

lemma LIST_DEL_head_one_node: "LIST_DEL list_head one_node = Inl NullDeref"
  by (simp add: LIST_DEL_def LIST_REMOVE_def list_head_def one_node_def load_def store_def free_def)

lemma two_nodes_facts:
  "is_list two_nodes [1, 2]" "is_list one_node [1]"
  by (simp_all add: two_nodes_def one_node_def is_list_def linked_def)

section \<open>The claims\<close>

subsection \<open>Construction\<close>

text \<open>
  Claim C10. For every length argument \<open>len\<close> and every destructor \<open>d\<close>, the constructor
  called with a null initializer returns the empty list (head and tail null, length 0)
  with \<open>d\<close> stored, whatever \<open>len\<close> is. With an initializer array of at least \<open>len\<close>
  elements, and \<open>len\<close> allocations that succeed with fresh blocks, it appends exactly
  the first \<open>len\<close> elements: \<open>len\<close> bounds how many are appended.
\<close>

theorem new_list_null_initializer:
  "new_list ptrs None len d h w
     = Inr \<lparr>sentinal = \<lparr>head = 0, tail = 0, length' = 0, destructor = d\<rparr>, heap = h, world = w\<rparr>
   \<and> (unat len \<le> length arr \<and> unat len \<le> length ptrs \<and> distinct (take (unat len) ptrs)
        \<and> (\<forall>p \<in> set (take (unat len) ptrs). p \<noteq> 0 \<and> h p = None)
      \<longrightarrow> (\<exists>s. new_list ptrs (Some arr) len d h w = Inr s
            \<and> is_list s (take (unat len) ptrs)
            \<and> entries (heap s) (take (unat len) ptrs) = take (unat len) arr
            \<and> length' (sentinal s) = len \<and> destructor (sentinal s) = d))"
proof (intro conjI impI)
  show "new_list ptrs None len d h w
     = Inr \<lparr>sentinal = \<lparr>head = 0, tail = 0, length' = 0, destructor = d\<rparr>, heap = h, world = w\<rparr>"
    by (simp add: new_list_def)
next
  assume a: "unat len \<le> length arr \<and> unat len \<le> length ptrs \<and> distinct (take (unat len) ptrs)
        \<and> (\<forall>p \<in> set (take (unat len) ptrs). p \<noteq> 0 \<and> h p = None)"
  then obtain s where s: "new_list ptrs (Some arr) len d h w = Inr s"
    "is_list s (take (unat len) ptrs)"
    "entries (heap s) (take (unat len) ptrs) = take (unat len) arr"
    "destructor (sentinal s) = d"
    using new_list_is_list [of len arr ptrs h d w] by blast
  from is_list_chains(6) [OF s(2)] a have "unat (length' (sentinal s)) = unat len"
    by simp
  then have "length' (sentinal s) = len" by (simp add: word_unat_eq_iff)
  with s show "\<exists>s. new_list ptrs (Some arr) len d h w = Inr s
            \<and> is_list s (take (unat len) ptrs)
            \<and> entries (heap s) (take (unat len) ptrs) = take (unat len) arr
            \<and> length' (sentinal s) = len \<and> destructor (sentinal s) = d"
    by blast
qed

theorem new_list_null_initializer_witness:
  "new_list [] None 7 None Map.empty ()
     = Inr \<lparr>sentinal = \<lparr>head = 0, tail = 0, length' = 0, destructor = None\<rparr>,
            heap = Map.empty, world = ()\<rparr>
   \<and> (\<exists>s. new_list [1, 2, 3] (Some [10, 20, 30 :: nat]) 2 None Map.empty () = Inr s
        \<and> is_list s [1, 2] \<and> entries (heap s) [1, 2] = [10, 20] \<and> length' (sentinal s) = 2
        \<and> destructor (sentinal s) = None)"
  using new_list_null_initializer [of "[]" 7 None Map.empty "()" "[]"]
    new_list_null_initializer [of "[1, 2, 3]" 2 None Map.empty "()" "[10, 20, 30 :: nat]"]
  by simp

text \<open>
  Claim C3. For every finite sequence \<open>S\<close>, constructing a list from \<open>S\<close> and its length
  (every allocation succeeding with a fresh block) and then traversing it forward from
  head via next visits exactly the elements of \<open>S\<close> in order, the first element of \<open>S\<close>
  being at head; traversing in reverse from tail via prev visits \<open>S\<close> reversed. The
  traversal's callback \<open>visit g\<close> hands each entry it visits to \<open>g\<close>, so the world after
  the traversal is \<open>g\<close> folded over the entries in the order of the visits.
\<close>

theorem construct_traverse:
  assumes "length ptrs = length S" "distinct ptrs" "\<forall>p \<in> set ptrs. p \<noteq> 0 \<and> h p = None"
  shows "\<exists>s. new_list ptrs (Some S) (of_nat (length S)) d h w = Inr s
     \<and> (S \<noteq> [] \<longrightarrow> map_option entry (heap s (head (sentinal s))) = Some (hd S))
     \<and> LIST_FOR_EACH (visit g) s = Some (Inr (s\<lparr>world := fold g S w\<rparr>))
     \<and> LIST_FOR_EACH_REV (visit g) s = Some (Inr (s\<lparr>world := fold g (rev S) w\<rparr>))"
proof -
  from assms(3) have "0 \<notin> set ptrs" by auto
  with assms(2) have "length ptrs < 2 ^ 64" by (rule length_distinct_nonnull)
  with assms(1) have u: "unat (of_nat (length S) :: size_t) = length S"
    by (simp add: unat_of_nat)
  from new_list_is_list [of "of_nat (length S)" S ptrs h d w] u assms
  obtain s where s: "new_list ptrs (Some S) (of_nat (length S)) d h w = Inr s"
    "is_list s ptrs" "entries (heap s) ptrs = S" "world s = w"
    by auto
  have "S \<noteq> [] \<longrightarrow> map_option entry (heap s (head (sentinal s))) = Some (hd S)"
  proof
    assume "S \<noteq> []"
    with assms(1) have "ptrs \<noteq> []" by auto
    from is_list_hd_entry [OF s(2) this] s(3)
    show "map_option entry (heap s (head (sentinal s))) = Some (hd S)" by simp
  qed
  moreover have "LIST_FOR_EACH (visit g) s = Some (Inr (s\<lparr>world := fold g S w\<rparr>))"
    using LIST_FOR_EACH_visit [OF s(2), of g] s(3,4) by simp
  moreover have "LIST_FOR_EACH_REV (visit g) s = Some (Inr (s\<lparr>world := fold g (rev S) w\<rparr>))"
    using LIST_FOR_EACH_REV_visit [OF s(2), of g] s(3,4) by simp
  ultimately show ?thesis using s(1) by blast
qed

theorem construct_traverse_witness:
  "\<exists>s. new_list [1, 2, 3] (Some [10, 20, 30 :: nat]) 3 None Map.empty [] = Inr s
     \<and> map_option entry (heap s (head (sentinal s))) = Some 10
     \<and> LIST_FOR_EACH (visit (\<lambda>v log. log @ [v])) s = Some (Inr (s\<lparr>world := [10, 20, 30]\<rparr>))
     \<and> LIST_FOR_EACH_REV (visit (\<lambda>v log. log @ [v])) s = Some (Inr (s\<lparr>world := [30, 20, 10]\<rparr>))"
  using construct_traverse [of "[1, 2, 3]" "[10, 20, 30 :: nat]" Map.empty None "[]" "\<lambda>v log. log @ [v]"]
  by simp

subsection \<open>Insertion\<close>

text \<open>
  Claim C4. For every list, append and prepend (given a fresh block by the allocator)
  increase length by exactly 1, return the new length, and make the new node the
  respective boundary: on an empty list the new node becomes both head and tail;
  otherwise append makes it the new tail after the current tail and prepend the new
  head before the current head, the two affected link fields pointing at each other.
\<close>

theorem add_boundary:
  assumes "is_list s as" "p \<noteq> 0" "heap s p = None"
  shows "(\<exists>s'. LIST_APPEND p (Inr v) s = Inr (length' (sentinal s) + 1, s')
       \<and> length' (sentinal s') = length' (sentinal s) + 1
       \<and> unat (length' (sentinal s')) = unat (length' (sentinal s)) + 1
       \<and> is_list s' (as @ [p]) \<and> entries (heap s') (as @ [p]) = entries (heap s) as @ [v]
       \<and> tail (sentinal s') = p
       \<and> (if as = [] then head (sentinal s') = p
          else head (sentinal s') = head (sentinal s)
             \<and> map_option next (heap s' (tail (sentinal s))) = Some p
             \<and> map_option prev (heap s' p) = Some (tail (sentinal s))))
   \<and> (\<exists>s'. LIST_PREPEND p (Inr v) s = Inr (length' (sentinal s) + 1, s')
       \<and> length' (sentinal s') = length' (sentinal s) + 1
       \<and> unat (length' (sentinal s')) = unat (length' (sentinal s)) + 1
       \<and> is_list s' (p # as) \<and> entries (heap s') (p # as) = v # entries (heap s) as
       \<and> head (sentinal s') = p
       \<and> (if as = [] then tail (sentinal s') = p
          else tail (sentinal s') = tail (sentinal s)
             \<and> map_option prev (heap s' (head (sentinal s))) = Some p
             \<and> map_option next (heap s' p) = Some (head (sentinal s))))"
proof (rule conjI)
  from LIST_APPEND_is_list [OF assms, of v]
  obtain s' where s': "LIST_APPEND p (Inr v) s = Inr (length' (sentinal s) + 1, s')"
    "is_list s' (as @ [p])" "entries (heap s') (as @ [p]) = entries (heap s) as @ [v]"
    "length' (sentinal s') = length' (sentinal s) + 1"
    by blast
  have u: "unat (length' (sentinal s')) = unat (length' (sentinal s)) + 1"
    using is_list_chains(6) [OF s'(2)] is_list_chains(6) [OF assms(1)] by simp
  have t: "tail (sentinal s') = p"
    using is_list_boundary(2) [OF s'(2)] by simp
  have h: "if as = [] then head (sentinal s') = p
          else head (sentinal s') = head (sentinal s)
             \<and> map_option next (heap s' (tail (sentinal s))) = Some p
             \<and> map_option prev (heap s' p) = Some (tail (sentinal s))"
  proof (cases "as = []")
    case True
    with is_list_boundary(1) [OF s'(2)] show ?thesis by simp
  next
    case False
    note b = is_list_boundary [OF assms(1) False]
    from is_list_boundary(1) [OF s'(2)] False b have "head (sentinal s') = head (sentinal s)"
      by simp
    moreover from is_list_neighbours(2) [of s' as p "[]"] s'(2) False b
    have "map_option next (heap s' (tail (sentinal s))) = Some p" by simp
    moreover from is_list_neighbours(1) [of s' as p "[]"] s'(2) False b
    have "map_option prev (heap s' p) = Some (tail (sentinal s))" by (auto simp: hd_rev)
    ultimately show ?thesis using False by simp
  qed
  from s' u t h show "\<exists>s'. LIST_APPEND p (Inr v) s = Inr (length' (sentinal s) + 1, s')
       \<and> length' (sentinal s') = length' (sentinal s) + 1
       \<and> unat (length' (sentinal s')) = unat (length' (sentinal s)) + 1
       \<and> is_list s' (as @ [p]) \<and> entries (heap s') (as @ [p]) = entries (heap s) as @ [v]
       \<and> tail (sentinal s') = p
       \<and> (if as = [] then head (sentinal s') = p
          else head (sentinal s') = head (sentinal s)
             \<and> map_option next (heap s' (tail (sentinal s))) = Some p
             \<and> map_option prev (heap s' p) = Some (tail (sentinal s)))"
    by blast
next
  from LIST_PREPEND_is_list [OF assms, of v]
  obtain s' where s': "LIST_PREPEND p (Inr v) s = Inr (length' (sentinal s) + 1, s')"
    "is_list s' (p # as)" "entries (heap s') (p # as) = v # entries (heap s) as"
    "length' (sentinal s') = length' (sentinal s) + 1"
    by blast
  have u: "unat (length' (sentinal s')) = unat (length' (sentinal s)) + 1"
    using is_list_chains(6) [OF s'(2)] is_list_chains(6) [OF assms(1)] by simp
  have t: "head (sentinal s') = p"
    using is_list_boundary(1) [OF s'(2)] by simp
  have h: "if as = [] then tail (sentinal s') = p
          else tail (sentinal s') = tail (sentinal s)
             \<and> map_option prev (heap s' (head (sentinal s))) = Some p
             \<and> map_option next (heap s' p) = Some (head (sentinal s))"
  proof (cases "as = []")
    case True
    with is_list_boundary(2) [OF s'(2)] show ?thesis by simp
  next
    case False
    note b = is_list_boundary [OF assms(1) False]
    from is_list_boundary(2) [OF s'(2)] False b have "tail (sentinal s') = tail (sentinal s)"
      by simp
    moreover from is_list_neighbours(3) [of s' "[]" p as] s'(2) False b
    have "map_option prev (heap s' (head (sentinal s))) = Some p" by simp
    moreover from is_list_neighbours(1) [of s' "[]" p as] s'(2) False b
    have "map_option next (heap s' p) = Some (head (sentinal s))" by (auto simp: hd_append)
    ultimately show ?thesis using False by simp
  qed
  from s' u t h show "\<exists>s'. LIST_PREPEND p (Inr v) s = Inr (length' (sentinal s) + 1, s')
       \<and> length' (sentinal s') = length' (sentinal s) + 1
       \<and> unat (length' (sentinal s')) = unat (length' (sentinal s)) + 1
       \<and> is_list s' (p # as) \<and> entries (heap s') (p # as) = v # entries (heap s) as
       \<and> head (sentinal s') = p
       \<and> (if as = [] then tail (sentinal s') = p
          else tail (sentinal s') = tail (sentinal s)
             \<and> map_option prev (heap s' (head (sentinal s))) = Some p
             \<and> map_option next (heap s' p) = Some (head (sentinal s)))"
    by blast
qed

theorem add_boundary_witness:
  "is_list example_list [1, 2, 3] \<and> (5 :: addr) \<noteq> 0 \<and> heap example_list 5 = None
   \<and> (\<exists>s'. LIST_APPEND 5 (Inr 50) example_list = Inr (4, s')
        \<and> length' (sentinal s') = 4 \<and> unat (length' (sentinal s')) = 4
        \<and> is_list s' [1, 2, 3, 5] \<and> entries (heap s') [1, 2, 3, 5] = [10, 20, 30, 50]
        \<and> tail (sentinal s') = 5 \<and> head (sentinal s') = 1
        \<and> map_option next (heap s' 3) = Some 5 \<and> map_option prev (heap s' 5) = Some 3)
   \<and> (\<exists>s'. LIST_PREPEND 5 (Inr 50) example_list = Inr (4, s')
        \<and> length' (sentinal s') = 4 \<and> unat (length' (sentinal s')) = 4
        \<and> is_list s' [5, 1, 2, 3] \<and> entries (heap s') [5, 1, 2, 3] = [50, 10, 20, 30]
        \<and> head (sentinal s') = 5 \<and> tail (sentinal s') = 3
        \<and> map_option prev (heap s' 1) = Some 5 \<and> map_option next (heap s' 5) = Some 1)"
proof -
  have p: "(5 :: addr) \<noteq> 0" by simp
  show ?thesis
    using add_boundary [OF example_list_facts(1) p example_list_facts(8), of 50]
      example_list_facts(1,8)
    unfolding example_list_facts(2-5) by simp
qed

subsection \<open>Pop\<close>

text \<open>
  Claim C5. For every non-empty list, popFront returns the value of the current head
  and popBack that of the current tail; each decreases length by exactly 1 and removes
  (and frees) the corresponding boundary node, the other nodes and their entries
  staying as they were; a pop never invokes the destructor: the caller's world is
  unchanged whatever destructor is configured.
\<close>

theorem pop_nonempty:
  assumes "is_list s as" "as \<noteq> []"
  shows "(\<exists>v s'. LIST_POPF s = Inr (v, s')
       \<and> map_option entry (heap s (head (sentinal s))) = Some v
       \<and> length' (sentinal s') = length' (sentinal s) - 1
       \<and> unat (length' (sentinal s')) + 1 = unat (length' (sentinal s))
       \<and> is_list s' (tl as) \<and> entries (heap s') (tl as) = tl (entries (heap s) as)
       \<and> heap s' (head (sentinal s)) = None
       \<and> world s' = world s)
   \<and> (\<exists>v s'. LIST_POPB s = Inr (v, s')
       \<and> map_option entry (heap s (tail (sentinal s))) = Some v
       \<and> length' (sentinal s') = length' (sentinal s) - 1
       \<and> unat (length' (sentinal s')) + 1 = unat (length' (sentinal s))
       \<and> is_list s' (butlast as) \<and> entries (heap s') (butlast as) = butlast (entries (heap s) as)
       \<and> heap s' (tail (sentinal s)) = None
       \<and> world s' = world s)"
proof (rule conjI)
  note b = is_list_boundary [OF assms]
  from assms(2) have as: "as = [] @ hd as # tl as" by simp
  from assms(1) as have l: "is_list s ([] @ hd as # tl as)" by simp
  from is_list_alloc [OF assms(1), of "hd as"] assms(2) obtain n where n: "heap s (hd as) = Some n"
    by auto
  from gen_LIST_POP_is_list [OF l, of Head] b(1)
  obtain s' where s': "LIST_POPF s = Inr (entry (the (heap s (hd as))), s')"
    "is_list s' (tl as)" "entries (heap s') (tl as) = entries (heap s) (tl as)"
    "length' (sentinal s') = length' (sentinal s) - 1" "world s' = world s"
    "heap s' = (unlink_heap (heap s) [] (tl as))(hd as := None)"
    unfolding LIST_POPF_def by auto
  have "unat (length' (sentinal s')) + 1 = unat (length' (sentinal s))"
    using is_list_chains(6) [OF s'(2)] is_list_chains(6) [OF assms(1)] assms(2) by simp
  moreover have "entries (heap s) (tl as) = tl (entries (heap s) as)"
    by (simp add: entries_def map_tl)
  ultimately show "\<exists>v s'. LIST_POPF s = Inr (v, s')
       \<and> map_option entry (heap s (head (sentinal s))) = Some v
       \<and> length' (sentinal s') = length' (sentinal s) - 1
       \<and> unat (length' (sentinal s')) + 1 = unat (length' (sentinal s))
       \<and> is_list s' (tl as) \<and> entries (heap s') (tl as) = tl (entries (heap s) as)
       \<and> heap s' (head (sentinal s)) = None
       \<and> world s' = world s"
    using s' n b(1) by simp
next
  note b = is_list_boundary [OF assms]
  from assms(2) have as: "as = butlast as @ last as # []" by simp
  with assms(1) have l: "is_list s (butlast as @ last as # [])" by simp
  from is_list_alloc [OF assms(1), of "last as"] assms(2) obtain n where n: "heap s (last as) = Some n"
    by auto
  from gen_LIST_POP_is_list [OF l, of Tail] b(2)
  obtain s' where s': "LIST_POPB s = Inr (entry (the (heap s (last as))), s')"
    "is_list s' (butlast as)" "entries (heap s') (butlast as) = entries (heap s) (butlast as)"
    "length' (sentinal s') = length' (sentinal s) - 1" "world s' = world s"
    "heap s' = (unlink_heap (heap s) (butlast as) [])(last as := None)"
    unfolding LIST_POPB_def by auto
  have "unat (length' (sentinal s')) + 1 = unat (length' (sentinal s))"
    using is_list_chains(6) [OF s'(2)] is_list_chains(6) [OF assms(1)] assms(2) by simp
  moreover have "entries (heap s) (butlast as) = butlast (entries (heap s) as)"
    by (simp add: entries_def map_butlast)
  ultimately show "\<exists>v s'. LIST_POPB s = Inr (v, s')
       \<and> map_option entry (heap s (tail (sentinal s))) = Some v
       \<and> length' (sentinal s') = length' (sentinal s) - 1
       \<and> unat (length' (sentinal s')) + 1 = unat (length' (sentinal s))
       \<and> is_list s' (butlast as) \<and> entries (heap s') (butlast as) = butlast (entries (heap s) as)
       \<and> heap s' (tail (sentinal s)) = None
       \<and> world s' = world s"
    using s' n b(2) by simp
qed

theorem pop_nonempty_witness:
  "is_list example_list [1, 2, 3] \<and> [1, 2, 3 :: addr] \<noteq> []
   \<and> (\<exists>s'. LIST_POPF example_list = Inr (10, s')
       \<and> length' (sentinal s') = 2 \<and> is_list s' [2, 3] \<and> entries (heap s') [2, 3] = [20, 30]
       \<and> heap s' 1 = None \<and> world s' = [])
   \<and> (\<exists>s'. LIST_POPB example_list = Inr (30, s')
       \<and> length' (sentinal s') = 2 \<and> is_list s' [1, 2] \<and> entries (heap s') [1, 2] = [10, 20]
       \<and> heap s' 3 = None \<and> world s' = [])"
proof -
  have ne: "[1, 2, 3 :: addr] \<noteq> []" by simp
  have h: "heap example_list 1 = Some \<lparr>next = 2, prev = 0, entry = 10\<rparr>"
    "heap example_list 3 = Some \<lparr>next = 0, prev = 2, entry = 30\<rparr>"
    by (simp_all add: example_list_def)
  show ?thesis
    using pop_nonempty [OF example_list_facts(1) ne] example_list_facts(1)
    unfolding example_list_facts(2-6) h by auto
qed

subsection \<open>Bulk destruction\<close>

text \<open>
  Claim C8. For every list, destroy is a deletion-safe forward traversal that deletes
  every node: it ends normally, every node of the list is freed and no other block is
  touched, the destructor (if one is configured) has been applied to each element in
  head-to-tail order, and length is 0 with head and tail null. Destroying the result
  again changes nothing, and on an already-empty list destroy is a no-op.
\<close>

theorem destroy_all:
  assumes "is_list s as"
  shows "\<exists>s'. LIST_DESTROY s = Some (Inr s')
     \<and> length' (sentinal s') = 0 \<and> head (sentinal s') = 0 \<and> tail (sentinal s') = 0
     \<and> (\<forall>a \<in> set as. heap s' a = None) \<and> (\<forall>a. a \<notin> set as \<longrightarrow> heap s' a = heap s a)
     \<and> world s' = (case destructor (sentinal s) of None \<Rightarrow> world s
                    | Some d \<Rightarrow> fold d (entries (heap s) as) (world s))
     \<and> LIST_DESTROY s' = Some (Inr s')
     \<and> (as = [] \<longrightarrow> s' = s)"
proof -
  define s' where "s' = s\<lparr>sentinal := (sentinal s)\<lparr>head := 0, tail := 0, length' := 0\<rparr>,
                      heap := (\<lambda>a. if a \<in> set as then None else heap s a),
                      world := (case destructor (sentinal s) of None \<Rightarrow> world s
                                | Some d \<Rightarrow> fold d (entries (heap s) as) (world s))\<rparr>"
  have d: "LIST_DESTROY s = Some (Inr s')"
    unfolding s'_def by (rule LIST_DESTROY_eq [OF assms])
  have e: "is_list s' []"
    by (simp add: is_list_Nil s'_def)
  have "LIST_DESTROY s' = Some (Inr s')"
    unfolding LIST_DESTROY_eq [OF e]
    by (simp add: s'_def entries_def split: option.splits)
  moreover have "as = [] \<longrightarrow> s' = s"
  proof
    assume "as = []"
    with assms have "head (sentinal s) = 0" "tail (sentinal s) = 0" "length' (sentinal s) = 0"
      by (simp_all add: is_list_Nil)
    with \<open>as = []\<close> show "s' = s"
      by (simp add: s'_def entries_def split: option.splits)
  qed
  moreover have "length' (sentinal s') = 0" "head (sentinal s') = 0" "tail (sentinal s') = 0"
    "\<forall>a \<in> set as. heap s' a = None" "\<forall>a. a \<notin> set as \<longrightarrow> heap s' a = heap s a"
    "world s' = (case destructor (sentinal s) of None \<Rightarrow> world s
                    | Some d \<Rightarrow> fold d (entries (heap s) as) (world s))"
    by (simp_all add: s'_def)
  ultimately show ?thesis using d by blast
qed

theorem destroy_all_witness:
  "is_list example_list [1, 2, 3]
   \<and> (\<exists>s'. LIST_DESTROY example_list = Some (Inr s')
     \<and> length' (sentinal s') = 0 \<and> head (sentinal s') = 0 \<and> tail (sentinal s') = 0
     \<and> heap s' 1 = None \<and> heap s' 2 = None \<and> heap s' 3 = None
     \<and> heap s' 4 = Some \<lparr>next = 0, prev = 0, entry = 40\<rparr>
     \<and> world s' = [10, 20, 30]
     \<and> LIST_DESTROY s' = Some (Inr s'))"
proof -
  from destroy_all [OF example_list_facts(1)]
  obtain s' where s': "LIST_DESTROY example_list = Some (Inr s')"
    "length' (sentinal s') = 0" "head (sentinal s') = 0" "tail (sentinal s') = 0"
    "\<forall>a \<in> set [1, 2, 3]. heap s' a = None"
    "\<forall>a. a \<notin> set [1, 2, 3] \<longrightarrow> heap s' a = heap example_list a"
    "world s' = (case destructor (sentinal example_list) of None \<Rightarrow> world example_list
                    | Some d \<Rightarrow> fold d (entries (heap example_list) [1, 2, 3]) (world example_list))"
    "LIST_DESTROY s' = Some (Inr s')"
    by blast
  from s'(6) have "heap s' 4 = Some \<lparr>next = 0, prev = 0, entry = 40\<rparr>"
    by (simp add: example_list_def)
  moreover from s'(7) have "world s' = [10, 20, 30]"
    unfolding example_list_facts by simp
  ultimately show ?thesis
    using s' example_list_facts(1) by auto
qed

subsection \<open>Pop on an empty list\<close>

text \<open>
  Claim C1 says that on a list with length 0 the two pops fail with an EmptyListError
  and leave the state unchanged rather than dereference an absent node. The macros have
  no such check: \<^verbatim>\<open>_LIST_POP\<close> hands the null boundary pointer to \<^verbatim>\<open>LIST_REMOVE\<close>,
  whose first statement reads \<^verbatim>\<open>(elem)->prev\<close>. On the empty list both pops
  dereference the null pointer.
\<close>

theorem pop_empty_counterexample:
  "is_list empty_list [] \<and> length' (sentinal empty_list) = 0
   \<and> LIST_POPF empty_list = Inl NullDeref \<and> LIST_POPB empty_list = Inl NullDeref"
  by (simp add: empty_list_def is_list_Nil LIST_POPF_def LIST_POPB_def gen_LIST_POP_def
      LIST_REMOVE_ptr load_def)

text \<open>
  Claim C1 as amended. For every list with length 0, popFront and popBack perform no
  emptiness check: they dereference the null boundary pointer, which is undefined
  behaviour in C (the fault \<open>NullDeref\<close> here); no EmptyListError is reported and no
  resulting state is defined.
\<close>

theorem pop_empty:
  assumes "is_list s as" "length' (sentinal s) = 0"
  shows "LIST_POPF s = Inl NullDeref \<and> LIST_POPB s = Inl NullDeref"
proof -
  from is_list_chains(6) [OF assms(1)] assms(2) have "as = []" by simp
  with assms(1) have "head (sentinal s) = 0" "tail (sentinal s) = 0"
    by (simp_all add: is_list_Nil)
  then show ?thesis
    by (simp add: LIST_POPF_def LIST_POPB_def gen_LIST_POP_null)
qed

theorem pop_empty_witness:
  "(\<exists>s :: (nat, unit) state. new_list [] None 0 None Map.empty () = Inr s
      \<and> is_list s [] \<and> length' (sentinal s) = 0
      \<and> LIST_POPF s = Inl NullDeref \<and> LIST_POPB s = Inl NullDeref)"
proof -
  let ?s = "\<lparr>sentinal = \<lparr>head = 0, tail = 0, length' = 0, destructor = None\<rparr>,
            heap = Map.empty, world = ()\<rparr> :: (nat, unit) state"
  have n: "new_list [] None 0 None Map.empty () = Inr ?s"
    by (simp add: new_list_def)
  have l: "is_list ?s []" by (rule is_list_empty)
  have z: "length' (sentinal ?s) = 0" by simp
  from pop_empty [OF l z] n l z show ?thesis by blast
qed

subsection \<open>Removal\<close>

text \<open>
  Claim C2 says that remove unlinks a live member without touching its value or
  invoking the destructor, and that its result value is the new length. The first part
  holds for a node given through a pointer variable (lemma \<open>LIST_REMOVE_is_list\<close>).
  The result value is that of
  \<^verbatim>\<open>(list)->length--\<close>, the length before the call, although the macro's own comment
  says \<^verbatim>\<open>@return size_t new length of list\<close> and \<^verbatim>\<open>_LIST_ADD\<close> returns the new
  length with \<^verbatim>\<open>++(list)->length\<close>. Removing the middle node of the three-node example
  list, given through a pointer variable, yields 3, and the length stored is 2.
\<close>

theorem remove_returns_old_length:
  "\<exists>s'. LIST_REMOVE (ptr 2) example_list = Inr (3, s') \<and> length' (sentinal s') = 2
     \<and> is_list s' [1, 3] \<and> heap s' 2 = heap example_list 2 \<and> world s' = world example_list"
proof -
  have l: "is_list example_list ([1] @ 2 # [3])"
    using example_list_facts(1) by simp
  from LIST_REMOVE_is_list [OF l] show ?thesis
    unfolding example_list_facts(5) by auto
qed

text \<open>
  Claim C9 says that remove and delete, given a node that is not linked into the list,
  fail with a reported ForeignNodeError instead of corrupting the list state. The macros
  have no membership check and no way to report an error. Given a pointer variable
  holding node 4 of the example state, which is allocated but not a member of the list of the nodes 1, 2 and 3, both
  end normally: head and tail are as before and length has dropped to 2, with three
  nodes still linked; delete has also logged the foreign entry and freed the node.
\<close>

theorem remove_foreign_counterexample:
  "is_list example_list [1, 2, 3] \<and> 4 \<notin> set [1, 2, 3 :: addr]
   \<and> LIST_REMOVE (ptr 4) example_list
       = Inr (3, example_list\<lparr>sentinal := (sentinal example_list)\<lparr>length' := 2\<rparr>\<rparr>)
   \<and> LIST_DEL (ptr 4) example_list
       = Inr (example_list\<lparr>sentinal := (sentinal example_list)\<lparr>length' := 2\<rparr>,
                           heap := (heap example_list)(4 := None), world := [40]\<rparr>)
   \<and> walk Next (heap example_list) (head (sentinal example_list)) = Some (Inr [1, 2, 3])"
proof -
  have r: "LIST_REMOVE (ptr 4) example_list
       = Inr (3, example_list\<lparr>sentinal := (sentinal example_list)\<lparr>length' := 2\<rparr>\<rparr>)"
    by (simp add: LIST_REMOVE_ptr example_list_def load_def)
  have "LIST_DEL (ptr 4) example_list
       = Inr (example_list\<lparr>sentinal := (sentinal example_list)\<lparr>length' := 2\<rparr>,
                           heap := (heap example_list)(4 := None), world := [40]\<rparr>)"
    unfolding LIST_DEL_ptr r
    by (simp add: example_list_def load_def free_def)
  moreover have "walk Next (heap example_list) (head (sentinal example_list)) = Some (Inr [1, 2, 3])"
    using walk_chain [OF is_list_chains(1) [OF example_list_facts(1)]]
    by (simp add: example_list_facts(3))
  ultimately show ?thesis
    using r example_list_facts(1) by simp
qed

text \<open>
  Claim C9 as amended. Remove and delete perform no membership check and report no
  ForeignNodeError. For every list and every node that is not linked into it, named by
  a pointer variable: when the node pointer is null or unallocated, or a non-null
  neighbour pointer of the node (its prev or its next) is unallocated, the macro
  dereferences an invalid pointer, which is undefined behaviour in C (a fault here).
  Otherwise both end normally and the list state is changed, not protected: the next
  field of the node's prev neighbour is set to the node's next pointer and the prev
  field of its next neighbour to its prev pointer (each skipped when that neighbour
  pointer is null), nothing else in the heap changes, head and tail stay as they were
  and length is decremented; delete then applies the destructor, if one is configured,
  to the node's entry and frees the node.
\<close>

theorem remove_foreign:
  assumes "is_list s as" "e \<notin> set as"
  shows "(e = 0 \<longrightarrow> LIST_REMOVE (ptr e) s = Inl NullDeref \<and> LIST_DEL (ptr e) s = Inl NullDeref)
   \<and> (e \<noteq> 0 \<and> heap s e = None
        \<longrightarrow> LIST_REMOVE (ptr e) s = Inl InvalidDeref \<and> LIST_DEL (ptr e) s = Inl InvalidDeref)
   \<and> (\<forall>n. e \<noteq> 0 \<and> heap s e = Some n \<longrightarrow>
        ((prev n \<noteq> 0 \<and> heap s (prev n) = None) \<or> (next n \<noteq> 0 \<and> heap s (next n) = None)
          \<longrightarrow> LIST_REMOVE (ptr e) s = Inl InvalidDeref \<and> LIST_DEL (ptr e) s = Inl InvalidDeref)
      \<and> ((prev n = 0 \<or> heap s (prev n) \<noteq> None) \<and> (next n = 0 \<or> heap s (next n) \<noteq> None)
          \<longrightarrow> (\<exists>r s'. LIST_REMOVE (ptr e) s = Inr (r, s')
                \<and> heap s' = set_link Prev (next n) (prev n)
                              (set_link Next (prev n) (next n) (heap s))
                \<and> head (sentinal s') = head (sentinal s)
                \<and> tail (sentinal s') = tail (sentinal s)
                \<and> length' (sentinal s') = length' (sentinal s) - 1
                \<and> destructor (sentinal s') = destructor (sentinal s)
                \<and> world s' = world s)
            \<and> (\<exists>s'. LIST_DEL (ptr e) s = Inr s'
                \<and> heap s' = (set_link Prev (next n) (prev n)
                               (set_link Next (prev n) (next n) (heap s)))(e := None)
                \<and> head (sentinal s') = head (sentinal s)
                \<and> tail (sentinal s') = tail (sentinal s)
                \<and> length' (sentinal s') = length' (sentinal s) - 1
                \<and> destructor (sentinal s') = destructor (sentinal s)
                \<and> world s' = (case destructor (sentinal s) of None \<Rightarrow> world s
                               | Some d \<Rightarrow> d (entry n) (world s)))))"
proof (intro conjI impI allI)
  assume "e = 0"
  then show "LIST_REMOVE (ptr e) s = Inl NullDeref" "LIST_DEL (ptr e) s = Inl NullDeref"
    by (simp_all add: LIST_REMOVE_bad_node(1) LIST_DEL_fault)
next
  assume a: "e \<noteq> 0 \<and> heap s e = None"
  then have "LIST_REMOVE (ptr e) s = Inl InvalidDeref"
    by (simp add: LIST_REMOVE_bad_node(2))
  then show "LIST_REMOVE (ptr e) s = Inl InvalidDeref" "LIST_DEL (ptr e) s = Inl InvalidDeref"
    by (simp_all add: LIST_DEL_fault)
next
  fix n
  assume a: "e \<noteq> 0 \<and> heap s e = Some n"
    and bad: "(prev n \<noteq> 0 \<and> heap s (prev n) = None) \<or> (next n \<noteq> 0 \<and> heap s (next n) = None)"
  from a have "e \<noteq> 0" "heap s e = Some n" by simp_all
  then have "LIST_REMOVE (ptr e) s = Inl InvalidDeref"
    using bad by (rule LIST_REMOVE_bad_neighbour)
  then show "LIST_REMOVE (ptr e) s = Inl InvalidDeref" "LIST_DEL (ptr e) s = Inl InvalidDeref"
    by (simp_all add: LIST_DEL_fault)
next
  fix n
  assume a: "e \<noteq> 0 \<and> heap s e = Some n"
    and ok: "(prev n = 0 \<or> heap s (prev n) \<noteq> None) \<and> (next n = 0 \<or> heap s (next n) \<noteq> None)"
  from a have e: "e \<noteq> 0" "heap s e = Some n" by simp_all
  from ok have pv: "prev n = 0 \<or> heap s (prev n) \<noteq> None"
    and nx: "next n = 0 \<or> heap s (next n) \<noteq> None" by simp_all
  from is_list_boundary_mem [OF assms(1)] assms(2) e(1)
  have b: "e \<noteq> head (sentinal s)" "e \<noteq> tail (sentinal s)" by auto
  define h2 where "h2 = set_link Prev (next n) (prev n) (set_link Next (prev n) (next n) (heap s))"
  define s1 where "s1 = s\<lparr>sentinal := (sentinal s)\<lparr>length' := length' (sentinal s) - 1\<rparr>, heap := h2\<rparr>"
  have r: "LIST_REMOVE (ptr e) s = Inr (length' (sentinal s), s1)"
    unfolding s1_def h2_def by (rule LIST_REMOVE_nonmember(1) [OF e pv nx b])
  from LIST_REMOVE_nonmember(2) [OF e pv nx b]
  obtain n2 where n2: "h2 e = Some n2" "entry n2 = entry n"
    unfolding h2_def by blast
  then show "\<exists>r s'. LIST_REMOVE (ptr e) s = Inr (r, s')
                \<and> heap s' = set_link Prev (next n) (prev n)
                              (set_link Next (prev n) (next n) (heap s))
                \<and> head (sentinal s') = head (sentinal s)
                \<and> tail (sentinal s') = tail (sentinal s)
                \<and> length' (sentinal s') = length' (sentinal s) - 1
                \<and> destructor (sentinal s') = destructor (sentinal s)
                \<and> world s' = world s"
    using r by (simp add: s1_def h2_def)
  have ld: "load h2 e = Inr n2"
    using e(1) n2(1) by (rule load_Some)
  have fr: "free e h2 = Inr (h2(e := None))"
    using e(1) n2(1) by (simp add: free_def)
  define w where "w = (case destructor (sentinal s) of None \<Rightarrow> world s
                       | Some d \<Rightarrow> d (entry n) (world s))"
  have "LIST_DEL (ptr e) s = Inr (s1\<lparr>world := w, heap := h2(e := None)\<rparr>)"
    unfolding LIST_DEL_ptr r fbind_simps prod.case
    by (cases "destructor (sentinal s)") (simp_all add: ld fr n2(2) w_def s1_def)
  then show "\<exists>s'. LIST_DEL (ptr e) s = Inr s'
                \<and> heap s' = (set_link Prev (next n) (prev n)
                               (set_link Next (prev n) (next n) (heap s)))(e := None)
                \<and> head (sentinal s') = head (sentinal s)
                \<and> tail (sentinal s') = tail (sentinal s)
                \<and> length' (sentinal s') = length' (sentinal s) - 1
                \<and> destructor (sentinal s') = destructor (sentinal s)
                \<and> world s' = (case destructor (sentinal s) of None \<Rightarrow> world s
                               | Some d \<Rightarrow> d (entry n) (world s))"
    by (simp add: s1_def h2_def w_def)
qed

theorem remove_foreign_witness:
  "is_list two_lists [1, 2, 3] \<and> 0 \<notin> set [1, 2, 3 :: addr] \<and> 5 \<notin> set [1, 2, 3 :: addr]
   \<and> 7 \<notin> set [1, 2, 3 :: addr] \<and> 8 \<notin> set [1, 2, 3 :: addr]
   \<and> LIST_REMOVE (ptr 0) two_lists = Inl NullDeref
   \<and> LIST_REMOVE (ptr 8) two_lists = Inl InvalidDeref
   \<and> LIST_REMOVE (ptr 7) two_lists = Inl InvalidDeref
   \<and> LIST_DEL (ptr 7) two_lists = Inl InvalidDeref
   \<and> (\<exists>r s'. LIST_REMOVE (ptr 5) two_lists = Inr (r, s')
        \<and> heap s' 4 = Some \<lparr>next = 6, prev = 0, entry = 40\<rparr>
        \<and> heap s' 6 = Some \<lparr>next = 0, prev = 4, entry = 60\<rparr>
        \<and> heap s' 5 = heap two_lists 5 \<and> heap s' 1 = heap two_lists 1
        \<and> head (sentinal s') = 1 \<and> tail (sentinal s') = 3 \<and> length' (sentinal s') = 2
        \<and> world s' = [])
   \<and> (\<exists>s'. LIST_DEL (ptr 5) two_lists = Inr s'
        \<and> heap s' 4 = Some \<lparr>next = 6, prev = 0, entry = 40\<rparr>
        \<and> heap s' 6 = Some \<lparr>next = 0, prev = 4, entry = 60\<rparr>
        \<and> heap s' 5 = None
        \<and> head (sentinal s') = 1 \<and> tail (sentinal s') = 3 \<and> length' (sentinal s') = 2
        \<and> world s' = [50])"
proof -
  note l = two_lists_facts(1)
  have m: "0 \<notin> set [1, 2, 3 :: addr]" "5 \<notin> set [1, 2, 3 :: addr]"
    "7 \<notin> set [1, 2, 3 :: addr]" "8 \<notin> set [1, 2, 3 :: addr]"
    by simp_all
  have z: "LIST_REMOVE (ptr 0) two_lists = Inl NullDeref"
    using remove_foreign [OF l m(1)] by simp
  have u: "LIST_REMOVE (ptr 8) two_lists = Inl InvalidDeref"
    using remove_foreign [OF l m(4)] two_lists_facts(4) by simp
  have d: "LIST_REMOVE (ptr 7) two_lists = Inl InvalidDeref"
    "LIST_DEL (ptr 7) two_lists = Inl InvalidDeref"
    using remove_foreign [OF l m(3)] two_lists_facts(3,5) by simp_all
  have h: "set_link Prev 6 4 (set_link Next 4 6 (heap two_lists))
      = (heap two_lists)(4 \<mapsto> \<lparr>next = 6, prev = 0, entry = 40\<rparr>,
                           6 \<mapsto> \<lparr>next = 0, prev = 4, entry = 60\<rparr>)"
    by (simp add: set_link_def two_lists_facts)
  from remove_foreign [OF l m(2)] two_lists_facts(2,6,7)
  have "(\<exists>r s'. LIST_REMOVE (ptr 5) two_lists = Inr (r, s')
        \<and> heap s' = (heap two_lists)(4 \<mapsto> \<lparr>next = 6, prev = 0, entry = 40\<rparr>,
                           6 \<mapsto> \<lparr>next = 0, prev = 4, entry = 60\<rparr>)
        \<and> head (sentinal s') = 1 \<and> tail (sentinal s') = 3 \<and> length' (sentinal s') = 2
        \<and> world s' = [])
   \<and> (\<exists>s'. LIST_DEL (ptr 5) two_lists = Inr s'
        \<and> heap s' = ((heap two_lists)(4 \<mapsto> \<lparr>next = 6, prev = 0, entry = 40\<rparr>,
                           6 \<mapsto> \<lparr>next = 0, prev = 4, entry = 60\<rparr>))(5 := None)
        \<and> head (sentinal s') = 1 \<and> tail (sentinal s') = 3 \<and> length' (sentinal s') = 2
        \<and> world s' = [50])"
    unfolding two_lists_facts(8-12) by (simp add: h) blast
  then have "(\<exists>r s'. LIST_REMOVE (ptr 5) two_lists = Inr (r, s')
        \<and> heap s' 4 = Some \<lparr>next = 6, prev = 0, entry = 40\<rparr>
        \<and> heap s' 6 = Some \<lparr>next = 0, prev = 4, entry = 60\<rparr>
        \<and> heap s' 5 = heap two_lists 5 \<and> heap s' 1 = heap two_lists 1
        \<and> head (sentinal s') = 1 \<and> tail (sentinal s') = 3 \<and> length' (sentinal s') = 2
        \<and> world s' = [])
   \<and> (\<exists>s'. LIST_DEL (ptr 5) two_lists = Inr s'
        \<and> heap s' 4 = Some \<lparr>next = 6, prev = 0, entry = 40\<rparr>
        \<and> heap s' 6 = Some \<lparr>next = 0, prev = 4, entry = 60\<rparr>
        \<and> heap s' 5 = None
        \<and> head (sentinal s') = 1 \<and> tail (sentinal s') = 3 \<and> length' (sentinal s') = 2
        \<and> world s' = [50])"
    by auto
  with l m z u d show ?thesis by simp
qed

subsection \<open>The destructor\<close>

text \<open>
  Claim C6 says that the destructor is invoked exactly once per element destroyed via
  delete or destroy and never by remove or pop. Destroy, remove and the pops do as it
  says, and so does delete when it is given a pointer variable (lemmas
  \<open>LIST_DESTROY_eq\<close>, \<open>LIST_REMOVE_is_list\<close>, \<open>gen_LIST_POP_is_list\<close> and
  \<open>LIST_DEL_is_list\<close>). But \<^verbatim>\<open>LIST_DEL\<close> is a macro and evaluates its argument again
  after \<^verbatim>\<open>LIST_REMOVE\<close>, although its comment calls the argument the pointer of the
  element to delete. Called as \<^verbatim>\<open>LIST_DEL(&list, list.head)\<close> on the three-node example
  list, it hands the destructor 20, the entry of node 2, and frees node 2, which stays
  the head; node 1, the element the call names, is unlinked but neither given to the
  destructor nor freed. On a one-node list the argument is null after the removal and
  the macro dereferences it before any destructor call.
\<close>

theorem delete_through_head:
  "is_list example_list [1, 2, 3] \<and> list_head example_list = Inr 1
   \<and> LIST_DEL list_head example_list
       = Inr (example_list\<lparr>sentinal := (sentinal example_list)\<lparr>head := 2, length' := 2\<rparr>,
                           heap := (heap example_list)(2 := None), world := [20]\<rparr>)
   \<and> is_list one_node [1] \<and> list_head one_node = Inr 1
   \<and> LIST_DEL list_head one_node = Inl NullDeref"
  using example_list_facts(1) two_nodes_facts(2) LIST_DEL_head_example_list LIST_DEL_head_one_node
  by (simp add: list_head_def example_list_def one_node_def)

subsection \<open>The structural invariant\<close>

text \<open>
  Claim C7 says that the structural invariant holds in every state reachable by any
  sequence of construct, append, prepend, remove, delete, pop and destroy operations.
  Two such sequences break it. The constructor builds the two-node list, and
  \<^verbatim>\<open>LIST_REMOVE(&list, list.head)\<close>, whose argument is a live member, leaves head at
  node 2, tail null and length 1: the macro evaluates its argument again after it has
  moved head, so its last test compares the new head with tail. And the constructor
  builds the three-node example list beside an allocated node 4, and
  \<^verbatim>\<open>LIST_REMOVE\<close> given node 4, which is not a member, leaves three linked nodes and
  length 2.
\<close>

theorem reachable_invariant_counterexample:
  "new_list [1, 2] (Some [10, 20]) 2 (destructor (sentinal two_nodes)) Map.empty [] = Inr two_nodes
   \<and> member two_nodes 1 \<and> list_head two_nodes = Inr 1
   \<and> LIST_REMOVE list_head two_nodes
       = Inr (2, two_nodes\<lparr>sentinal := (sentinal two_nodes)\<lparr>head := 2, tail := 0, length' := 1\<rparr>,
                          heap := (heap two_nodes)(2 \<mapsto> \<lparr>next = 0, prev = 0, entry = 20\<rparr>)\<rparr>)
   \<and> \<not> list_invariant
         (two_nodes\<lparr>sentinal := (sentinal two_nodes)\<lparr>head := 2, tail := 0, length' := 1\<rparr>,
                    heap := (heap two_nodes)(2 \<mapsto> \<lparr>next = 0, prev = 0, entry = 20\<rparr>)\<rparr>)
   \<and> new_list [1, 2, 3] (Some [10, 20, 30]) 3 (destructor (sentinal example_list))
         [4 \<mapsto> \<lparr>next = 0, prev = 0, entry = 40\<rparr>] [] = Inr example_list
   \<and> \<not> member example_list 4
   \<and> LIST_REMOVE (ptr 4) example_list
       = Inr (3, example_list\<lparr>sentinal := (sentinal example_list)\<lparr>length' := 2\<rparr>\<rparr>)
   \<and> \<not> list_invariant (example_list\<lparr>sentinal := (sentinal example_list)\<lparr>length' := 2\<rparr>\<rparr>)"
proof -
  have m1: "member two_nodes 1"
    by (simp add: is_list_member [OF two_nodes_facts(1)])
  have m4: "\<not> member example_list 4"
    by (simp add: is_list_member [OF example_list_facts(1)])
  have h: "list_head two_nodes = Inr 1"
    by (simp add: list_head_def two_nodes_def)
  have i1: "\<not> list_invariant
         (two_nodes\<lparr>sentinal := (sentinal two_nodes)\<lparr>head := 2, tail := 0, length' := 1\<rparr>,
                    heap := (heap two_nodes)(2 \<mapsto> \<lparr>next = 0, prev = 0, entry = 20\<rparr>)\<rparr>)"
    by (simp add: list_invariant_def)
  have r4: "LIST_REMOVE (ptr 4) example_list
       = Inr (3, example_list\<lparr>sentinal := (sentinal example_list)\<lparr>length' := 2\<rparr>\<rparr>)"
    by (simp add: LIST_REMOVE_ptr example_list_def load_def)
  have fw: "walk Next (heap example_list) 1 = Some (Inr [1, 2, 3])"
    using walk_chain [OF is_list_chains(1) [OF example_list_facts(1)]] by simp
  have bw: "walk Prev (heap example_list) 3 = Some (Inr [3, 2, 1])"
    using walk_chain [OF is_list_chains(2) [OF example_list_facts(1)]] by simp
  have i4: "\<not> list_invariant (example_list\<lparr>sentinal := (sentinal example_list)\<lparr>length' := 2\<rparr>\<rparr>)"
    by (simp add: list_invariant_def example_list_facts(3,4) fw bw)
  from new_list_two_nodes m1 h LIST_REMOVE_head_two_nodes i1 new_list_example_list m4 r4 i4
  show ?thesis by blast
qed

text \<open>
  Claim C7 as amended. For every state reachable by any sequence of construct, append,
  prepend, remove, delete, pop and destroy operations in which every remove and delete
  is given a live member of the list through a pointer variable (an argument whose
  value the macro does not change) and the allocator returns fresh blocks, the
  structural invariant holds: head is null iff tail is null iff length is 0; when
  length is 1, head and tail coincide; walking from head via next and from tail via prev
  yields the same nodes in mutually reversed order, and the number of nodes walked is
  length.
\<close>

theorem reachable_invariant: "reachable_in_contract s \<Longrightarrow> list_invariant s"
  using reachable_is_list is_list_invariant by blast

theorem reachable_invariant_witness:
  "\<exists>s1 n s2 v s3 m s4 :: (nat, unit) state.
     new_list [1, 2, 3] (Some [10, 20, 30]) 3 None Map.empty () = Inr s1
     \<and> member s1 1 \<and> LIST_REMOVE (ptr 1) s1 = Inr (n, s2)
     \<and> LIST_POPB s2 = Inr (v, s3) \<and> LIST_APPEND 4 (Inr 40) s3 = Inr (m, s4)
     \<and> reachable_in_contract s4 \<and> list_invariant s4"
proof -
  from new_list_is_list [of 3 "[10, 20, 30 :: nat]" "[1, 2, 3]" Map.empty None "()"]
  obtain s1 :: "(nat, unit) state" where
    s1: "new_list [1, 2, 3] (Some [10, 20, 30]) 3 None Map.empty () = Inr s1"
    "is_list s1 [1, 2, 3]" "dom (heap s1) = {1, 2, 3}"
    by auto
  have r1: "reachable_in_contract s1"
    by (rule reachable_in_contract.construct [OF _ _ s1(1)]) simp_all
  have m1: "member s1 1"
    by (simp add: is_list_member [OF s1(2)])
  from s1(2) have l1: "is_list s1 ([] @ 1 # [2, 3])" by simp
  from LIST_REMOVE_is_list [OF l1]
  obtain n s2 where s2: "LIST_REMOVE (ptr 1) s1 = Inr (n, s2)" "is_list s2 [2, 3]"
    "heap s2 = unlink_heap (heap s1) [] [2, 3]"
    by auto
  have r2: "reachable_in_contract s2"
    by (rule reachable_in_contract.remove [OF r1 m1 s2(1)])
  from s2(2) have l2: "is_list s2 ([2] @ 3 # [])" by simp
  from gen_LIST_POP_is_list [OF l2, of Tail] is_list_boundary(2) [OF s2(2)]
  obtain v s3 where s3: "LIST_POPB s2 = Inr (v, s3)" "is_list s3 [2]"
    "heap s3 = (unlink_heap (heap s2) [2] [])(3 := None)"
    unfolding LIST_POPB_def by auto
  have r3: "reachable_in_contract s3"
    by (rule reachable_in_contract.popb [OF r2 s3(1)])
  have "(4 :: addr) \<notin> dom (heap s1)" unfolding s1(3) by simp
  then have "heap s1 4 = None" by (simp add: domIff)
  then have "heap s2 4 = None"
    unfolding s2(3) using unlink_heap_other [OF l1, of 4] by simp
  then have f: "heap s3 4 = None"
    unfolding s3(3) using unlink_heap_other [OF l2, of 4] by simp
  from LIST_APPEND_is_list [OF s3(2) _ f, of 40]
  obtain m s4 where s4: "LIST_APPEND 4 (Inr 40) s3 = Inr (m, s4)"
    by auto
  have r4: "reachable_in_contract s4"
    by (rule reachable_in_contract.append [OF r3 _ s4]) (simp add: f)
  from reachable_invariant [OF r4] r4 s1(1) m1 s2(1) s3(1) s4 show ?thesis by blast
qed

end
